theory Spec2Isabelle
  imports Complex_Main "HOL-Library.Word" "HOL-Library.Multiset"
begin
unbundle bit_operations_syntax

section \<open>Conventions of the embedding\<close>

text \<open>
  The simulator is C++. Its data is embedded as follows.
  \<^item> \<open>std::uint64_t\<close> is \<open>64 word\<close> and \<open>WorkflowId\<close> (\<open>std::uint32_t\<close>) is \<open>32 word\<close>:
    addition and multiplication wrap, shifts drop bits.
  \<^item> \<open>int\<close> is \<open>int\<close>, and the result of \<open>int\<close> arithmetic is written with its
    wrap-around to 32 bits (\<open>wrap_int32\<close>): this is what \<open>std::atomic<int>\<close> is defined
    to do and what the compiled code does elsewhere. Signed overflow is undefined in C++,
    so theorems that depend on \<open>int\<close> arithmetic carry the bounds under which the source's
    arithmetic is defined. The loop counters \<open>p < pdfs\<close> and \<open>q < K\<close> stay below an \<open>int\<close>.
  \<^item> A finite \<open>double\<close> is the real number it denotes. Comparisons of doubles are exact,
    so every branch of the source on a comparison is the same branch on the reals.
  \<^item> An exception is a value: fallible functions return \<open>error + 'a\<close>.
\<close>

section \<open>random.cpp: the seeded generator\<close>

record SeededRng =
  s0 :: "64 word"
  s1 :: "64 word"
  s2 :: "64 word"
  s3 :: "64 word"

definition Rotl :: "64 word \<Rightarrow> nat \<Rightarrow> 64 word" where
  "Rotl x k = (push_bit k x) OR (drop_bit (64 - k) x)"

text \<open>One round of the constructor's seeding loop: the new running value and the word stored.\<close>

definition seed_round :: "64 word \<Rightarrow> 64 word \<times> 64 word" where
  "seed_round s =
     (let s' = s + 0x9e3779b97f4a7c15;
          z1 = (s' XOR drop_bit 30 s') * 0xbf58476d1ce4e5b9;
          z2 = (z1 XOR drop_bit 27 z1) * 0x94d049bb133111eb;
          z3 = z2 XOR drop_bit 31 z2
      in (s', z3))"

definition SeededRng_init :: "64 word \<Rightarrow> SeededRng" where
  "SeededRng_init seed =
     (let (a, w0) = seed_round seed;
          (b, w1) = seed_round a;
          (c, w2) = seed_round b;
          (d, w3) = seed_round c
      in \<lparr>s0 = w0, s1 = w1, s2 = w2, s3 = w3\<rparr>)"

definition U64 :: "SeededRng \<Rightarrow> 64 word \<times> SeededRng" where
  "U64 r =
     (let result = Rotl (s0 r + s3 r) 23 + s0 r;
          t = push_bit 17 (s1 r);
          a2 = s2 r XOR s0 r;
          a3 = s3 r XOR s1 r;
          a1 = s1 r XOR a2;
          a0 = s0 r XOR a3;
          b2 = a2 XOR t;
          b3 = Rotl a3 45
      in (result, \<lparr>s0 = a0, s1 = a1, s2 = b2, s3 = b3\<rparr>))"

text \<open>
  \<open>static_cast<double>(U64() >> 11) / 2^53\<close>: the shifted value has at most 53 bits, so
  both the conversion and the division by a power of two are exact in a double.
\<close>

definition Uniform01 :: "SeededRng \<Rightarrow> real \<times> SeededRng" where
  "Uniform01 r = (let (w, r') = U64 r in (real (unat (drop_bit 11 w)) / 9007199254740992, r'))"

definition Uniform :: "real \<Rightarrow> real \<Rightarrow> SeededRng \<Rightarrow> real \<times> SeededRng" where
  "Uniform a b r = (let (u, r') = Uniform01 r in (a + u * (b - a), r'))"

definition Bernoulli :: "real \<Rightarrow> SeededRng \<Rightarrow> bool \<times> SeededRng" where
  "Bernoulli p r =
     (if p \<le> 0 then (False, r)
      else if p \<ge> 1 then (True, r)
      else (let (u, r') = Uniform01 r in (u < p, r')))"

section \<open>types.h and config.h: the data model\<close>

datatype NodeType =
  Plan | LoadPDF | Chunk | Embed | SimilaritySearch | ExtractEvidence | Aggregate | DecideNext

datatype ResourceClass = cpu | io | embed | llm

datatype NodeState = WaitingDeps | Runnable | Queued | Running | Succeeded | Failed | Cancelled

definition IsTerminal :: "NodeState \<Rightarrow> bool" where
  "IsTerminal s = (s = Succeeded \<or> s = Failed \<or> s = Cancelled)"

definition IsActive :: "NodeState \<Rightarrow> bool" where
  "IsActive s = (s = Runnable \<or> s = Queued \<or> s = Running)"

record ExecutionOption =
  provider :: string
  tier_id :: int
  price_per_call :: real
  timeout_ms :: int
  max_retries :: int

datatype Dist = Lognormal | Gamma | Linear

record LatencyParams =
  dist :: Dist
  param1 :: real
  param2 :: real
  tail_multiplier :: real
  tail_prob :: real

record TierConfig =
  tc_provider :: string
  tc_tier_id :: int
  rate_per_sec :: real
  capacity :: real
  concurrency_cap :: int
  tc_price_per_call :: real
  p_fail :: real
  default_timeout_ms :: int
  default_max_retries :: int

text \<open>\<open>LatencyConfig::by_type\<close> is an \<open>unordered_map\<close>; \<open>Get\<close> falls back to a static default.\<close>

type_synonym LatencyConfig = "NodeType \<rightharpoonup> LatencyParams"

definition default_params :: LatencyParams where
  "default_params =
     \<lparr>dist = Lognormal, param1 = 5, param2 = 8 / 10, tail_multiplier = 1, tail_prob = 0\<rparr>"

definition Get :: "LatencyConfig \<Rightarrow> NodeType \<Rightarrow> LatencyParams" where
  "Get by_type t = (case by_type t of Some p \<Rightarrow> p | None \<Rightarrow> default_params)"

text \<open>The table built by the constructor \<open>LatencyConfig::LatencyConfig()\<close>.\<close>

definition LatencyConfig_init :: LatencyConfig where
  "LatencyConfig_init =
     (let load_pdf = \<lparr>dist = Lognormal, param1 = 5, param2 = 8 / 10,
                       tail_multiplier = 3, tail_prob = 1 / 10\<rparr>;
          chunk = \<lparr>dist = Linear, param1 = 50, param2 = 1 / 2,
                    tail_multiplier = 1, tail_prob = 0\<rparr>;
          embed = \<lparr>dist = Gamma, param1 = 4, param2 = 25,
                    tail_multiplier = 2, tail_prob = 5 / 100\<rparr>;
          ss = \<lparr>dist = Linear, param1 = 20, param2 = 2,
                 tail_multiplier = 1, tail_prob = 0\<rparr>;
          llm = \<lparr>dist = Lognormal, param1 = 6, param2 = 8 / 10,
                  tail_multiplier = 1, tail_prob = 0\<rparr>
      in [LoadPDF \<mapsto> load_pdf, Chunk \<mapsto> chunk, Embed \<mapsto> embed, SimilaritySearch \<mapsto> ss,
          Plan \<mapsto> llm, ExtractEvidence \<mapsto> llm, Aggregate \<mapsto> llm, DecideNext \<mapsto> llm])"

section \<open>provider.h, provider.cpp: tiers\<close>

record LatencyContext =
  node_type :: NodeType
  pdf_size_est :: nat
  num_chunks_est :: int
  token_length_est :: nat

record LatencySample =
  service_time_ms :: real
  failed :: bool
  timeout :: bool

record QueuedAttempt =
  qa_node_id :: nat
  qa_workflow_id :: "32 word"
  qa_node_type :: NodeType
  qa_provider :: string
  qa_tier_id :: int
  tokens_needed :: int
  qa_timeout_ms :: int
  qa_max_retries :: int
  latency_ctx :: LatencyContext
  attempt_id :: "64 word"

text \<open>
  A tier: its configuration, its queue (front of the \<open>std::queue\<close> is the head of the
  list) and the \<open>std::atomic<int>\<close> counter \<open>in_flight\<close>. \<open>fetch_add\<close> and \<open>fetch_sub\<close> on
  an atomic \<open>int\<close> wrap in two's complement.
\<close>

text \<open>Isabelle names cannot end in an underscore: the members \<open>config_\<close>, \<open>queue_\<close>, \<open>in_flight_\<close> drop it.\<close>

record Tier =
  tier_config :: TierConfig
  queue :: "QueuedAttempt list"
  in_flight :: int

definition wrap_int32 :: "int \<Rightarrow> int" where
  "wrap_int32 x = (x + 2147483648) mod 4294967296 - 2147483648"

definition Tier_init :: "TierConfig \<Rightarrow> Tier" where
  "Tier_init c = \<lparr>tier_config = c, queue = [], in_flight = 0\<rparr>"


definition Enqueue :: "QueuedAttempt \<Rightarrow> Tier \<Rightarrow> Tier" where
  "Enqueue attempt t = t\<lparr>queue := queue t @ [attempt]\<rparr>"

text \<open>\<open>TryDequeue(out)\<close>: the flag returned, the new value of \<open>out\<close>, the new tier.\<close>

definition TryDequeue :: "Tier \<Rightarrow> QueuedAttempt \<Rightarrow> bool \<times> QueuedAttempt \<times> Tier" where
  "TryDequeue t out =
     (if queue t = [] \<or> in_flight t \<ge> concurrency_cap (tier_config t) then (False, out, t)
      else (True, hd (queue t),
            t\<lparr>queue := tl (queue t), in_flight := wrap_int32 (in_flight t + 1)\<rparr>))"

text \<open>
  \<open>BlockingDequeue(out)\<close> waits on the condition variable until the queue is non-empty and
  the tier is under its cap. \<open>None\<close>: the call is still waiting in this state.
\<close>

definition BlockingDequeue :: "Tier \<Rightarrow> (QueuedAttempt \<times> Tier) option" where
  "BlockingDequeue t =
     (if queue t \<noteq> [] \<and> in_flight t < concurrency_cap (tier_config t)
      then Some (hd (queue t),
                 t\<lparr>queue := tl (queue t), in_flight := wrap_int32 (in_flight t + 1)\<rparr>)
      else None)"

definition OnAttemptFinish :: "Tier \<Rightarrow> Tier" where
  "OnAttemptFinish t = t\<lparr>in_flight := wrap_int32 (in_flight t - 1)\<rparr>"

text \<open>
  Histories of one tier. Every operation takes effect atomically on the queue and the
  counter, so a run of the tier is a sequence of operations. The history records what was
  enqueued, what was handed out, and how many attempts have finished; \<open>OpTryDequeue out\<close>
  carries the caller's \<open>out\<close> variable. A step is \<open>None\<close>
  when the operation cannot take effect there: a \<open>BlockingDequeue\<close> that is still waiting,
  or an \<open>OnAttemptFinish\<close> with no dequeued attempt left to finish.
\<close>

datatype tier_op =
  OpEnqueue QueuedAttempt | OpTryDequeue QueuedAttempt | OpBlockingDequeue | OpOnAttemptFinish

record tier_history =
  tier :: Tier
  enqueued :: "QueuedAttempt list"
  dequeued :: "QueuedAttempt list"
  finished :: nat

fun tier_step :: "tier_op \<Rightarrow> tier_history \<Rightarrow> tier_history option" where
  "tier_step (OpEnqueue a) h =
     Some (h\<lparr>tier := Enqueue a (tier h), enqueued := enqueued h @ [a]\<rparr>)"
| "tier_step (OpTryDequeue out) h =
     (case TryDequeue (tier h) out of
        (True, a, t') \<Rightarrow> Some (h\<lparr>tier := t', dequeued := dequeued h @ [a]\<rparr>)
      | (False, _, t') \<Rightarrow> Some (h\<lparr>tier := t'\<rparr>))"
| "tier_step OpBlockingDequeue h =
     (case BlockingDequeue (tier h) of
        Some (a, t') \<Rightarrow> Some (h\<lparr>tier := t', dequeued := dequeued h @ [a]\<rparr>)
      | None \<Rightarrow> None)"
| "tier_step OpOnAttemptFinish h =
     (if finished h < length (dequeued h)
      then Some (h\<lparr>tier := OnAttemptFinish (tier h), finished := Suc (finished h)\<rparr>)
      else None)"

fun tier_run :: "tier_op list \<Rightarrow> tier_history \<Rightarrow> tier_history option" where
  "tier_run [] h = Some h"
| "tier_run (x # xs) h = (case tier_step x h of None \<Rightarrow> None | Some h' \<Rightarrow> tier_run xs h')"

definition tier_start :: "Tier \<Rightarrow> tier_history" where
  "tier_start t = \<lparr>tier = t, enqueued = [], dequeued = [], finished = 0\<rparr>"

section \<open>provider.cpp, worker.cpp: latency sampling\<close>

text \<open>
  \<open>SeededRng::Lognormal\<close> and \<open>SeededRng::Gamma\<close> compute with \<open>exp\<close>, \<open>log\<close>, \<open>sqrt\<close>,
  \<open>cos\<close> and \<open>pow\<close> on doubles and draw uniforms in rejection loops that need not end.
  They are parameters of the sampler: given the two distribution parameters and the
  generator, the sample and the generator after the call, or \<open>None\<close> when the call does
  not return.
\<close>

record rng_dists =
  rng_Lognormal :: "real \<Rightarrow> real \<Rightarrow> SeededRng \<Rightarrow> (real \<times> SeededRng) option"
  rng_Gamma :: "real \<Rightarrow> real \<Rightarrow> SeededRng \<Rightarrow> (real \<times> SeededRng) option"

text \<open>An instance under which neither call returns; the linear distribution never calls them.\<close>

definition dists_diverge :: rng_dists where
  "dists_diverge = \<lparr>rng_Lognormal = (\<lambda>mu sigma r. None), rng_Gamma = (\<lambda>shape scale r. None)\<rparr>"

text \<open>The \<open>switch (params.dist)\<close> of \<open>LatencySampler::SampleServiceTime\<close>: the value of \<open>raw\<close>.\<close>

definition SampleRaw ::
  "rng_dists \<Rightarrow> LatencyParams \<Rightarrow> LatencyContext \<Rightarrow> SeededRng \<Rightarrow> (real \<times> SeededRng) option" where
  "SampleRaw D params ctx r =
     (case dist params of
        Lognormal \<Rightarrow>
          (let mu = param1 params; sigma = param2 params;
               mu' = (if node_type ctx = Plan \<or> node_type ctx = ExtractEvidence \<or>
                         node_type ctx = DecideNext
                      then mu + (1 / 1000) * real (token_length_est ctx) else mu)
           in rng_Lognormal D mu' sigma r)
      | Gamma \<Rightarrow> rng_Gamma D (param1 params) (param2 params) r
      | Linear \<Rightarrow>
          (let base = param1 params; coeff = param2 params in
           if node_type ctx = Chunk then
             (let (j, r') = Uniform (- 5) 5 r
              in Some (max 1 (base + coeff * real (pdf_size_est ctx) + j), r'))
           else if node_type ctx = SimilaritySearch then
             Some (max 1 (base + coeff * real_of_int (num_chunks_est ctx)), r)
           else
             (let (j, r') = Uniform (- 2) 2 r in Some (max 1 (base + j), r'))))"

text \<open>
  \<open>LatencySampler::SampleServiceTime\<close>. \<open>Bernoulli\<close> is called only when
  \<open>tail_prob > 0\<close> (the \<open>&&\<close> short-circuits); the \<open>else if\<close> is reached when the first
  condition is false.
\<close>

definition SampleServiceTime ::
  "rng_dists \<Rightarrow> LatencyParams \<Rightarrow> LatencyContext \<Rightarrow> SeededRng \<Rightarrow> (real \<times> SeededRng) option" where
  "SampleServiceTime D params ctx r =
     (case SampleRaw D params ctx r of
        None \<Rightarrow> None
      | Some (raw, r1) \<Rightarrow>
          (let (hit, r2) = (if tail_prob params > 0 then Bernoulli (tail_prob params) r1
                            else (False, r1));
               raw' = (if hit then raw * tail_multiplier params
                       else if tail_prob params = 0 \<and> tail_multiplier params \<noteq> 1
                       then raw * tail_multiplier params
                       else raw)
           in Some (max 1 raw', r2)))"

text \<open>
  \<open>SampleLocalServiceTime\<close> of worker.cpp, the local workers' copy of the same sampling:
  the log-mean is not shifted, and the tail step has no \<open>else if\<close>.
\<close>

definition SampleLocalServiceTime ::
  "rng_dists \<Rightarrow> NodeType \<Rightarrow> LatencyContext \<Rightarrow> LatencyConfig \<Rightarrow> SeededRng
     \<Rightarrow> (real \<times> SeededRng) option" where
  "SampleLocalServiceTime D type ctx config r =
     (let params = Get config type in
      case (case dist params of
              Lognormal \<Rightarrow> rng_Lognormal D (param1 params) (param2 params) r
            | Gamma \<Rightarrow> rng_Gamma D (param1 params) (param2 params) r
            | Linear \<Rightarrow>
                (let base = param1 params; coeff = param2 params in
                 if type = Chunk then
                   (let (j, r') = Uniform (- 5) 5 r
                    in Some (max 1 (base + coeff * real (pdf_size_est ctx) + j), r'))
                 else if type = SimilaritySearch then
                   Some (max 1 (base + coeff * real_of_int (num_chunks_est ctx)), r)
                 else
                   (let (j, r') = Uniform (- 2) 2 r in Some (max 1 (base + j), r')))) of
        None \<Rightarrow> None
      | Some (raw, r1) \<Rightarrow>
          (let (hit, r2) = (if tail_prob params > 0 then Bernoulli (tail_prob params) r1
                            else (False, r1));
               raw' = (if hit then raw * tail_multiplier params else raw)
           in Some (max 1 raw', r2)))"

text \<open>\<open>LatencySampler::Sample\<close>, with the configuration and the generator the sampler holds as arguments.\<close>

definition Sample ::
  "rng_dists \<Rightarrow> LatencyConfig \<Rightarrow> LatencyContext \<Rightarrow> int \<Rightarrow> real \<Rightarrow> SeededRng
     \<Rightarrow> (LatencySample \<times> SeededRng) option" where
  "Sample D config ctx tmo pf r =
     (case SampleServiceTime D (Get config (node_type ctx)) ctx r of
        None \<Rightarrow> None
      | Some (st, r1) \<Rightarrow>
          (let (f, r2) = Bernoulli pf r1 in
           if f then Some (\<lparr>service_time_ms = st, failed = True, timeout = False\<rparr>, r2)
           else if tmo > 0 \<and> st > real_of_int tmo
           then Some (\<lparr>service_time_ms = real_of_int tmo, failed = False, timeout = True\<rparr>, r2)
           else Some (\<lparr>service_time_ms = st, failed = False, timeout = False\<rparr>, r2)))"



definition llm_slow :: TierConfig where
  "llm_slow = \<lparr>tc_provider = ''llm_provider'', tc_tier_id = 0, rate_per_sec = 5,
     capacity = 20, concurrency_cap = 2, tc_price_per_call = 1 / 100, p_fail = 3 / 100,
     default_timeout_ms = 30000, default_max_retries = 3\<rparr>"



text \<open>A default-constructed \<open>QueuedAttempt\<close> with the given node id and attempt id.\<close>

definition QueuedAttempt_init :: "nat \<Rightarrow> 64 word \<Rightarrow> QueuedAttempt" where
  "QueuedAttempt_init n a =
     \<lparr>qa_node_id = n, qa_workflow_id = 0, qa_node_type = Plan, qa_provider = [],
      qa_tier_id = 0, tokens_needed = 1, qa_timeout_ms = 30000, qa_max_retries = 3,
      latency_ctx = \<lparr>node_type = Plan, pdf_size_est = 0, num_chunks_est = 0,
                      token_length_est = 100\<rparr>,
      attempt_id = a\<rparr>"

section \<open>types.h, workflow.h: nodes, graphs, workflows\<close>

text \<open>
  \<open>NodeId\<close> is a 64-bit counter that starts at 1 and is incremented once per node; a
  workflow cannot hold \<open>2^64\<close> nodes, so node ids are natural numbers. The members \<open>id\<close>
  and \<open>type\<close> of a node are \<open>node_id\<close> and \<open>ntype\<close> here.
\<close>

record Node =
  node_id :: nat
  workflow_id :: "32 word"
  ntype :: NodeType
  resource_class :: ResourceClass
  idempotent :: bool
  state :: NodeState
  iter :: int
  pdf_idx :: int
  subquery_idx :: int
  deps :: "nat list"
  children :: "nat list"
  preference_list :: "ExecutionOption list"
  output_size_est :: nat
  evidence_count_est :: int

text \<open>A default-constructed \<open>Node\<close>.\<close>

definition Node_init :: Node where
  "Node_init = \<lparr>node_id = 0, workflow_id = 0, ntype = Plan, resource_class = cpu,
     idempotent = True, state = WaitingDeps, iter = 0, pdf_idx = - 1, subquery_idx = - 1,
     deps = [], children = [], preference_list = [], output_size_est = 0,
     evidence_count_est = 0\<rparr>"

text \<open>
  \<open>WorkflowGraph::nodes\<close> is an \<open>unordered_map<NodeId, Node>\<close>. It is an association list
  in order of insertion; a loop over the map visits the entries in that order. (The order
  in which the source visits them is unspecified; the loops modelled here treat each entry
  on its own and do not depend on it.)
\<close>

record WorkflowGraph =
  nodes :: "(nat \<times> Node) list"
  next_node_id :: nat

record WorkloadParams =
  pdfs :: int
  subqueries_per_iter :: int
  max_iters :: int
  seed :: "64 word"

datatype DecideAction = Stop | Continue

text \<open>
  The members of \<open>Workflow\<close>, without the trailing underscore; \<open>done_\<close> is \<open>wf_done\<close> and
  \<open>id_\<close> is \<open>wf_id\<close>. \<open>provider_config_\<close> is a pointer that may be null; only the tiers of
  the configuration are read.
\<close>

record Workflow =
  wf_id :: "32 word"
  params :: WorkloadParams
  provider_config :: "TierConfig list option"
  graph :: WorkflowGraph
  wf_done :: bool
  completed_iters :: int
  stop_iter :: "int option"

datatype error =
  UnknownNodeId | DuplicateNodeId | InvalidNodeTransition string | InvalidParams string

text \<open>Sequencing of fallible steps, and a loop whose body may throw.\<close>

definition bindE :: "error + 'a \<Rightarrow> ('a \<Rightarrow> error + 'b) \<Rightarrow> error + 'b" where
  "bindE m f = (case m of Inl e \<Rightarrow> Inl e | Inr x \<Rightarrow> f x)"

fun foldE :: "('a \<Rightarrow> 's \<Rightarrow> error + 's) \<Rightarrow> 'a list \<Rightarrow> 's \<Rightarrow> error + 's" where
  "foldE f [] s = Inr s"
| "foldE f (x # xs) s = bindE (f x s) (foldE f xs)"

definition Mix64 :: "64 word \<Rightarrow> 64 word" where
  "Mix64 x =
     (let x1 = x XOR drop_bit 30 x;
          x2 = x1 * 0xbf58476d1ce4e5b9;
          x3 = x2 XOR drop_bit 27 x2;
          x4 = x3 * 0x94d049bb133111eb
      in x4 XOR drop_bit 31 x4)"

text \<open>\<open>static_cast<std::size_t>\<close> of an \<open>int\<close>, on a 64-bit platform.\<close>

definition size_t_of_int :: "int \<Rightarrow> nat" where
  "size_t_of_int x = unat (word_of_int x :: 64 word)"

section \<open>workflow.cpp: graph primitives\<close>

definition lookup :: "Workflow \<Rightarrow> nat \<Rightarrow> Node option" where
  "lookup w nid = map_of (nodes (graph w)) nid"

text \<open>\<open>Workflow::node\<close> and \<open>Workflow::node_mut\<close> throw on an unknown id.\<close>

definition node :: "Workflow \<Rightarrow> nat \<Rightarrow> error + Node" where
  "node w nid = (case lookup w nid of None \<Rightarrow> Inl UnknownNodeId | Some n \<Rightarrow> Inr n)"

text \<open>Writing through the reference that \<open>node_mut\<close> (or \<open>AddNode\<close>) returned.\<close>

definition update_node :: "nat \<Rightarrow> (Node \<Rightarrow> Node) \<Rightarrow> Workflow \<Rightarrow> Workflow" where
  "update_node nid f w =
     w\<lparr>graph := (graph w)\<lparr>nodes :=
          map (\<lambda>(k, n). if k = nid then (k, f n) else (k, n)) (nodes (graph w))\<rparr>\<rparr>"

definition NewNodeId :: "Workflow \<Rightarrow> nat \<times> Workflow" where
  "NewNodeId w =
     (next_node_id (graph w),
      w\<lparr>graph := (graph w)\<lparr>next_node_id := next_node_id (graph w) + 1\<rparr>\<rparr>)"

text \<open>
  \<open>AddNode\<close> returns a reference to the node it inserted: here, the key under which the
  node is stored. Callers write through the reference by that key.
\<close>

definition AddNode :: "Node \<Rightarrow> Workflow \<Rightarrow> error + (nat \<times> Workflow)" where
  "AddNode n w =
     (let (n1, w1) = (if node_id n = 0
                      then (let (i, w') = NewNodeId w in (n\<lparr>node_id := i\<rparr>, w'))
                      else (n, w));
          n2 = (if workflow_id n1 = 0 then n1\<lparr>workflow_id := wf_id w1\<rparr> else n1)
      in if lookup w1 (node_id n2) \<noteq> None then Inl DuplicateNodeId
         else Inr (node_id n2,
                   w1\<lparr>graph := (graph w1)\<lparr>nodes := nodes (graph w1) @ [(node_id n2, n2)]\<rparr>\<rparr>))"

definition AddEdge :: "nat \<Rightarrow> nat \<Rightarrow> Workflow \<Rightarrow> error + Workflow" where
  "AddEdge from to w =
     bindE (node w from) (\<lambda>a.
     bindE (node w to) (\<lambda>b.
       Inr (update_node to (\<lambda>b. b\<lparr>deps := deps b @ [from]\<rparr>)
             (update_node from (\<lambda>a. a\<lparr>children := children a @ [to]\<rparr>) w))))"

text \<open>
  \<open>DepsSatisfied\<close> returns false at the first dependency that is not Succeeded; looking a
  dependency up throws when its id is unknown.
\<close>

fun DepsSatisfied_loop :: "Workflow \<Rightarrow> nat list \<Rightarrow> error + bool" where
  "DepsSatisfied_loop w [] = Inr True"
| "DepsSatisfied_loop w (d # ds) =
     bindE (node w d) (\<lambda>dep.
       if state dep \<noteq> Succeeded then Inr False else DepsSatisfied_loop w ds)"

definition DepsSatisfied :: "Workflow \<Rightarrow> Node \<Rightarrow> error + bool" where
  "DepsSatisfied w n = DepsSatisfied_loop w (deps n)"

definition InitializeStateFromDeps :: "nat \<Rightarrow> Workflow \<Rightarrow> error + Workflow" where
  "InitializeStateFromDeps nid w =
     bindE (node w nid) (\<lambda>n.
       if IsTerminal (state n) then Inr w
       else bindE (DepsSatisfied w n) (\<lambda>ok.
         Inr (update_node nid (\<lambda>n. n\<lparr>state := (if ok then Runnable else WaitingDeps)\<rparr>) w)))"

definition require :: "bool \<Rightarrow> string \<Rightarrow> error + unit" where
  "require ok msg = (if ok then Inr () else Inl (InvalidNodeTransition msg))"

definition SetState :: "nat \<Rightarrow> NodeState \<Rightarrow> Workflow \<Rightarrow> error + Workflow" where
  "SetState nid next w =
     bindE (node w nid) (\<lambda>n.
       if state n = next then Inr w
       else bindE (if IsTerminal (state n)
                   then require False ''terminal state cannot transition'' else Inr ()) (\<lambda>_.
            bindE (case next of
                     WaitingDeps \<Rightarrow>
                       bindE (DepsSatisfied w n) (\<lambda>ok.
                         require (\<not> ok) ''cannot move to WaitingDeps when deps satisfied'')
                   | Runnable \<Rightarrow>
                       bindE (DepsSatisfied w n) (\<lambda>ok.
                         require ok ''cannot move to Runnable before deps satisfied'')
                   | Queued \<Rightarrow>
                       require (state n = Runnable) ''Queued only allowed from Runnable''
                   | Running \<Rightarrow>
                       require (state n = Queued \<or> state n = Runnable)
                         ''Running only allowed from Queued/Runnable''
                   | Succeeded \<Rightarrow>
                       require (state n = Running \<or> state n = Queued \<or> state n = Runnable)
                         ''Succeeded only allowed from Running/Queued/Runnable''
                   | Failed \<Rightarrow>
                       require (state n = Running \<or> state n = Queued \<or> state n = Runnable)
                         ''Failed only allowed from Running/Queued/Runnable''
                   | Cancelled \<Rightarrow> Inr ()) (\<lambda>_.
              Inr (update_node nid (\<lambda>n. n\<lparr>state := next\<rparr>) w))))"

text \<open>
  \<open>RefreshRunnable\<close>: the loop visits every key of the map; the entry is read when it is
  visited. The result is the vector \<open>newly\<close> and the workflow.
\<close>

definition RefreshRunnable_body ::
  "nat \<Rightarrow> nat list \<times> Workflow \<Rightarrow> error + (nat list \<times> Workflow)" where
  "RefreshRunnable_body nid acc =
     (case acc of (newly, w) \<Rightarrow>
      case lookup w nid of
        None \<Rightarrow> Inr (newly, w)
      | Some n \<Rightarrow>
          if IsTerminal (state n) \<or> state n = Queued \<or> state n = Running then Inr (newly, w)
          else bindE (DepsSatisfied w n) (\<lambda>ready.
            if ready \<and> state n \<noteq> Runnable
            then Inr (newly @ [nid], update_node nid (\<lambda>n. n\<lparr>state := Runnable\<rparr>) w)
            else if \<not> ready \<and> state n \<noteq> WaitingDeps
            then Inr (newly, update_node nid (\<lambda>n. n\<lparr>state := WaitingDeps\<rparr>) w)
            else Inr (newly, w)))"

definition RefreshRunnable :: "Workflow \<Rightarrow> error + (nat list \<times> Workflow)" where
  "RefreshRunnable w = foldE RefreshRunnable_body (map fst (nodes (graph w))) ([], w)"

definition RunnableNodes :: "Workflow \<Rightarrow> nat list" where
  "RunnableNodes w = sort (map fst (filter (\<lambda>(k, n). state n = Runnable) (nodes (graph w))))"

definition PruneAfterStop_body :: "int \<Rightarrow> nat \<Rightarrow> Workflow \<Rightarrow> Workflow" where
  "PruneAfterStop_body stop nid w =
     (case lookup w nid of
        None \<Rightarrow> w
      | Some n \<Rightarrow>
          if IsTerminal (state n) then w
          else if iter n > stop then update_node nid (\<lambda>n. n\<lparr>state := Cancelled\<rparr>) w
          else w)"

definition PruneAfterStop :: "int \<Rightarrow> Workflow \<Rightarrow> error + Workflow" where
  "PruneAfterStop stop w =
     bindE (RefreshRunnable (fold (PruneAfterStop_body stop) (map fst (nodes (graph w))) w))
       (\<lambda>(newly, w'). Inr w')"

section \<open>workflow.cpp: DAG generation and the state machine\<close>

definition option_of_tier :: "TierConfig \<Rightarrow> ExecutionOption" where
  "option_of_tier tc =
     \<lparr>provider = tc_provider tc, tier_id = tc_tier_id tc,
      price_per_call = tc_price_per_call tc, timeout_ms = default_timeout_ms tc,
      max_retries = default_max_retries tc\<rparr>"

text \<open>
  \<open>PopulatePreferenceListForNode\<close>. \<open>std::sort\<close> by price is an ascending sort; the order
  it leaves among options of equal price is unspecified, and is the stable one here.
\<close>

definition preference_list_for :: "TierConfig list \<Rightarrow> ResourceClass \<Rightarrow> ExecutionOption list" where
  "preference_list_for tcs rc =
     sort_key price_per_call
       (map option_of_tier
          (filter (\<lambda>tc. (rc = embed \<and> tc_provider tc = ''embed_provider'') \<or>
                         (rc = llm \<and> tc_provider tc = ''llm_provider'')) tcs))"

definition PopulatePreferenceListForNode :: "nat \<Rightarrow> Workflow \<Rightarrow> Workflow" where
  "PopulatePreferenceListForNode nid w =
     (case provider_config w of
        None \<Rightarrow> w
      | Some tcs \<Rightarrow>
          update_node nid
            (\<lambda>n. n\<lparr>preference_list := preference_list_for tcs (resource_class n)\<rparr>) w)"

definition EnsureInitialPlan :: "Workflow \<Rightarrow> error + Workflow" where
  "EnsureInitialPlan w =
     (let (i, w1) = NewNodeId w;
          plan = Node_init\<lparr>node_id := i, workflow_id := wf_id w1, ntype := Plan,
                   resource_class := llm, idempotent := True, iter := 0, state := Runnable,
                   output_size_est :=
                     size_t_of_int
                       (wrap_int32 (200 + 10 * subqueries_per_iter (params w1)
                                      + 3 * pdfs (params w1)))\<rparr>
      in bindE (AddNode plan w1) (\<lambda>(p, w2). Inr (PopulatePreferenceListForNode p w2)))"

fun ResourceForType :: "NodeType \<Rightarrow> ResourceClass" where
  "ResourceForType LoadPDF = io"
| "ResourceForType Chunk = cpu"
| "ResourceForType Embed = embed"
| "ResourceForType SimilaritySearch = cpu"
| "ResourceForType ExtractEvidence = llm"
| "ResourceForType Plan = llm"
| "ResourceForType Aggregate = cpu"
| "ResourceForType DecideNext = llm"

text \<open>The value \<open>h % 4\<close> assigned to \<open>evidence_count_est\<close> of ExtractEvidence(p, q).\<close>

definition evidence_estimate :: "64 word \<Rightarrow> 32 word \<Rightarrow> int \<Rightarrow> int \<Rightarrow> int \<Rightarrow> int" where
  "evidence_estimate sd wid it p q =
     (let h = Mix64 (sd XOR push_bit 32 (ucast wid)
                        XOR (word_of_int it * 0x9e3779b97f4a7c15)
                        XOR push_bit 8 (word_of_int p) XOR word_of_int q)
      in int (unat (h mod 4)))"

text \<open>
  A node as the expansion builds it before \<open>AddNode\<close>: default-constructed, then id,
  workflow, type, resource class, iteration and indices assigned.
\<close>

definition new_node :: "Workflow \<Rightarrow> nat \<Rightarrow> NodeType \<Rightarrow> int \<Rightarrow> int \<Rightarrow> int \<Rightarrow> Node" where
  "new_node w i t it p q =
     Node_init\<lparr>node_id := i, workflow_id := wf_id w, ntype := t,
       resource_class := ResourceForType t, idempotent := True, iter := it,
       pdf_idx := p, subquery_idx := q\<rparr>"

text \<open>The body of the loop over subqueries \<open>q\<close>, for pdf \<open>p\<close> with embed node \<open>embed_id\<close>.\<close>

definition expand_subquery ::
  "int \<Rightarrow> int \<Rightarrow> nat \<Rightarrow> int \<Rightarrow> Workflow \<times> nat list \<Rightarrow> error + (Workflow \<times> nat list)" where
  "expand_subquery it p embed_id q acc =
     (case acc of (w, extract_nodes) \<Rightarrow>
      let (ss_id, w1) = NewNodeId w;
          ss = new_node w1 ss_id SimilaritySearch it p q;
          (ex_id, w2) = NewNodeId w1;
          ex = (new_node w2 ex_id ExtractEvidence it p q)
                 \<lparr>evidence_count_est :=
                    evidence_estimate (seed (params w2)) (wf_id w2) it p q\<rparr>
      in bindE (AddNode ss w2) (\<lambda>(ss_ref, w3).
         bindE (AddNode ex w3) (\<lambda>(ex_ref, w4).
         let w5 = PopulatePreferenceListForNode ss_ref w4;
             w6 = PopulatePreferenceListForNode ex_ref w5
         in bindE (AddEdge embed_id ss_id w6) (\<lambda>w7.
            bindE (AddEdge ss_id ex_id w7) (\<lambda>w8.
              Inr (w8, extract_nodes @ [ex_id]))))))"

text \<open>The body of the loop over pdfs \<open>p\<close>.\<close>

definition expand_pdf ::
  "nat \<Rightarrow> int \<Rightarrow> int \<Rightarrow> Workflow \<times> nat list \<Rightarrow> error + (Workflow \<times> nat list)" where
  "expand_pdf plan_node it p acc =
     (case acc of (w, extract_nodes) \<Rightarrow>
      let (load_id, w1) = NewNodeId w;
          load = new_node w1 load_id LoadPDF it p (- 1);
          (chunk_id, w2) = NewNodeId w1;
          chunk = new_node w2 chunk_id Chunk it p (- 1);
          (embed_id, w3) = NewNodeId w2;
          embed = new_node w3 embed_id Embed it p (- 1)
      in bindE (AddNode load w3) (\<lambda>(l, w4).
         bindE (AddNode chunk w4) (\<lambda>(c, w5).
         bindE (AddNode embed w5) (\<lambda>(e, w6).
         let w7 = PopulatePreferenceListForNode l w6;
             w8 = PopulatePreferenceListForNode c w7;
             w9 = PopulatePreferenceListForNode e w8
         in bindE (AddEdge plan_node load_id w9) (\<lambda>w10.
            bindE (AddEdge load_id chunk_id w10) (\<lambda>w11.
            bindE (AddEdge chunk_id embed_id w11) (\<lambda>w12.
              let K = subqueries_per_iter (params w12) in
              if K = 0 then Inr (w12, extract_nodes)
              else foldE (expand_subquery it p embed_id) (map int [0..<nat K])
                     (w12, extract_nodes))))))))"

definition ExpandIterationFromPlan :: "nat \<Rightarrow> Workflow \<Rightarrow> error + Workflow" where
  "ExpandIterationFromPlan plan_node w =
     bindE (node w plan_node) (\<lambda>plan.
       let it = iter plan in
       if it \<ge> max_iters (params w) then Inr w
       else if \<exists>(k, n) \<in> set (nodes (graph w)). ntype n = Aggregate \<and> iter n = it then Inr w
       else
         bindE (foldE (expand_pdf plan_node it) (map int [0..<nat (pdfs (params w))]) (w, []))
           (\<lambda>(w1, extract_nodes).
         let (agg_id, w2) = NewNodeId w1;
             agg = new_node w2 agg_id Aggregate it (- 1) (- 1);
             (decide_id, w3) = NewNodeId w2;
             decide = new_node w3 decide_id DecideNext it (- 1) (- 1)
         in bindE (AddNode agg w3) (\<lambda>(agg_ref, w4).
            bindE (AddNode decide w4) (\<lambda>(decide_ref, w5).
            let w6 = PopulatePreferenceListForNode agg_ref w5;
                w7 = PopulatePreferenceListForNode decide_ref w6
            in bindE (if extract_nodes \<noteq> []
                      then foldE (\<lambda>ex_id. AddEdge ex_id agg_id) extract_nodes w7
                      else AddEdge plan_node agg_id w7) (\<lambda>w8.
               bindE (AddEdge agg_id decide_id w8) (\<lambda>w9.
               bindE (InitializeStateFromDeps agg_id w9) (\<lambda>w10.
                 InitializeStateFromDeps decide_id w10)))))))"

text \<open>
  The decision of an iteration computes with \<open>int\<close>: the sum of the evidence estimates,
  the number of covered pdfs cast to \<open>int\<close>, \<open>iter + 1\<close> and the product
  \<open>pdfs * max(1, subqueries) * 2\<close>. Each result is written with the wrap-around to 32 bits
  that the compiled code performs where the value leaves the range of \<open>int\<close>.
\<close>

definition IterEvidenceTotal :: "Workflow \<Rightarrow> int \<Rightarrow> int" where
  "IterEvidenceTotal w it =
     fold (\<lambda>(k, n) total.
             if iter n = it \<and> ntype n = ExtractEvidence
             then wrap_int32 (total + evidence_count_est n)
             else total)
       (nodes (graph w)) 0"

text \<open>The \<open>unordered_set<int> covered\<close> is the list of its elements without duplicates.\<close>

definition IterPdfCoverageCount :: "Workflow \<Rightarrow> int \<Rightarrow> int" where
  "IterPdfCoverageCount w it =
     wrap_int32 (int (length (fold (\<lambda>(k, n) covered.
                          if iter n \<noteq> it \<or> ntype n \<noteq> ExtractEvidence then covered
                          else if evidence_count_est n > 0 then List.insert (pdf_idx n) covered
                          else covered)
                    (nodes (graph w)) [])))"

text \<open>The tie-breaker \<open>u01\<close> of \<open>ComputeDecideAction\<close>.\<close>

definition decide_u01 :: "64 word \<Rightarrow> 32 word \<Rightarrow> int \<Rightarrow> real" where
  "decide_u01 sd wid it =
     (let h = Mix64 (sd XOR push_bit 1 (ucast wid) XOR (word_of_int it * 0xD1B54A32D192ED03))
      in real (unat (h AND 0xFFFF)) / 65535)"

text \<open>
  \<open>ComputeDecideAction\<close>. The quotients are of \<open>int\<close> values converted to \<open>double\<close>; they are
  compared with 0.60, 0.50, 0.45, 0.35 and 0.70. A quotient of two ints below \<open>2^31\<close> that
  differs from such a constant differs from it by far more than the rounding of a double,
  so the comparisons of the rounded values are the comparisons of the exact ones.
\<close>

definition ComputeDecideAction :: "Workflow \<Rightarrow> int \<Rightarrow> DecideAction" where
  "ComputeDecideAction w it =
     (if wrap_int32 (it + 1) \<ge> max_iters (params w) then Stop
      else
        let total = IterEvidenceTotal w it;
            covered = IterPdfCoverageCount w it;
            coverage = real_of_int covered / real_of_int (max 1 (pdfs (params w)));
            denom = real_of_int
                      (max 1 (wrap_int32
                         (wrap_int32 (pdfs (params w) * max 1 (subqueries_per_iter (params w)))
                          * 2)));
            confidence = min 1 (real_of_int total / denom);
            u01 = decide_u01 (seed (params w)) (wf_id w) it;
            strong = (coverage \<ge> 60 / 100 \<and> confidence \<ge> 50 / 100);
            borderline = (coverage \<ge> 45 / 100 \<and> confidence \<ge> 35 / 100 \<and> u01 > 70 / 100)
        in if strong \<or> borderline then Stop else Continue)"

definition OnDecideNext :: "nat \<Rightarrow> Workflow \<Rightarrow> error + Workflow" where
  "OnDecideNext decide_node w =
     bindE (node w decide_node) (\<lambda>dn.
       let it = iter dn;
           action = ComputeDecideAction w it
       in if action = Stop
          then PruneAfterStop it (w\<lparr>wf_done := True, stop_iter := Some it\<rparr>)
          else
            let next_iter = wrap_int32 (it + 1);
                (plan_id, w1) = NewNodeId w;
                plan = Node_init\<lparr>node_id := plan_id, workflow_id := wf_id w1, ntype := Plan,
                         resource_class := llm, idempotent := True, iter := next_iter,
                         output_size_est :=
                           size_t_of_int
                             (wrap_int32 (220 + 15 * subqueries_per_iter (params w1)
                                            + 4 * pdfs (params w1)))\<rparr>
            in bindE (AddNode plan w1) (\<lambda>(plan_ref, w2).
               bindE (AddEdge decide_node plan_id (PopulatePreferenceListForNode plan_ref w2))
                 (\<lambda>w3. InitializeStateFromDeps plan_id w3)))"

definition MarkQueued :: "nat \<Rightarrow> Workflow \<Rightarrow> error + Workflow" where
  "MarkQueued nid w = SetState nid Queued w"

definition MarkRunning :: "nat \<Rightarrow> Workflow \<Rightarrow> error + Workflow" where
  "MarkRunning nid w = SetState nid Running w"

definition MarkSucceeded :: "nat \<Rightarrow> Workflow \<Rightarrow> error + Workflow" where
  "MarkSucceeded nid w =
     bindE (node w nid) (\<lambda>n0.
       let t = ntype n0; it = iter n0 in
       bindE (SetState nid Succeeded w) (\<lambda>w1.
       bindE (if t = Plan then ExpandIterationFromPlan nid w1
              else if t = DecideNext
              then bindE (OnDecideNext nid w1) (\<lambda>w2.
                     Inr (w2\<lparr>completed_iters := max (completed_iters w2) (wrap_int32 (it + 1))\<rparr>))
              else Inr w1) (\<lambda>w3.
       bindE (RefreshRunnable w3) (\<lambda>(newly, w4). Inr w4))))"

definition MarkFailed :: "nat \<Rightarrow> Workflow \<Rightarrow> error + Workflow" where
  "MarkFailed nid w =
     bindE (SetState nid Failed w) (\<lambda>w1.
     bindE (RefreshRunnable w1) (\<lambda>(newly, w2). Inr w2))"

definition Cancel :: "nat \<Rightarrow> Workflow \<Rightarrow> error + Workflow" where
  "Cancel nid w =
     bindE (node w nid) (\<lambda>n.
       if IsTerminal (state n) then Inr w
       else bindE (RefreshRunnable (update_node nid (\<lambda>n. n\<lparr>state := Cancelled\<rparr>) w))
              (\<lambda>(newly, w'). Inr w'))"

text \<open>The constructor \<open>Workflow::Workflow\<close>.\<close>

definition Workflow_init ::
  "32 word \<Rightarrow> WorkloadParams \<Rightarrow> TierConfig list \<Rightarrow> error + Workflow" where
  "Workflow_init wid ps tcs =
     (if pdfs ps \<le> 0 then Inl (InvalidParams ''WorkloadParams.pdfs must be > 0'')
      else if subqueries_per_iter ps < 0
      then Inl (InvalidParams ''WorkloadParams.subqueries_per_iter must be >= 0'')
      else if max_iters ps \<le> 0
      then Inl (InvalidParams ''WorkloadParams.max_iters must be > 0'')
      else
        bindE (EnsureInitialPlan
                 \<lparr>wf_id = wid, params = ps, provider_config = Some tcs,
                  graph = \<lparr>nodes = [], next_node_id = 1\<rparr>,
                  wf_done = False, completed_iters = 0, stop_iter = None\<rparr>) (\<lambda>w.
        bindE (RefreshRunnable w) (\<lambda>(newly, w'). Inr w')))"

text \<open>
  The public operations that change node states, as values, and a run of a controller:
  a sequence of calls, stopped by the first exception.
\<close>

datatype mutator =
  CallMarkQueued nat | CallMarkRunning nat | CallMarkSucceeded nat | CallMarkFailed nat
| CallCancel nat | CallRefreshRunnable | CallPruneAfterStop int

fun call :: "mutator \<Rightarrow> Workflow \<Rightarrow> error + Workflow" where
  "call (CallMarkQueued nid) w = MarkQueued nid w"
| "call (CallMarkRunning nid) w = MarkRunning nid w"
| "call (CallMarkSucceeded nid) w = MarkSucceeded nid w"
| "call (CallMarkFailed nid) w = MarkFailed nid w"
| "call (CallCancel nid) w = Cancel nid w"
| "call CallRefreshRunnable w = bindE (RefreshRunnable w) (\<lambda>(newly, w'). Inr w')"
| "call (CallPruneAfterStop stop) w = PruneAfterStop stop w"

definition calls :: "mutator list \<Rightarrow> Workflow \<Rightarrow> error + Workflow" where
  "calls ms w = foldE call ms w"

section \<open>Notions used in the statements\<close>

text \<open>
  The invariant of a history that starts at tier \<open>t0\<close>: the counter is the number of
  attempts handed out and not yet finished, it is at most the cap, and what was handed out
  followed by what still waits is the initial queue followed by everything enqueued.
\<close>

definition tier_inv :: "Tier \<Rightarrow> tier_history \<Rightarrow> bool" where
  "tier_inv t0 h \<longleftrightarrow>
     tier_config (tier h) = tier_config t0 \<and>
     finished h \<le> length (dequeued h) \<and>
     in_flight (tier h) = int (length (dequeued h)) - int (finished h) \<and>
     in_flight (tier h) \<le> concurrency_cap (tier_config t0) \<and>
     dequeued h @ queue (tier h) = queue t0 @ enqueued h"

text \<open>The values of a 32-bit \<open>int\<close>.\<close>

definition int_range :: "int \<Rightarrow> bool" where
  "int_range x \<longleftrightarrow> - 2147483648 \<le> x \<and> x < 2147483648"

text \<open>
  The ExtractEvidence nodes of iteration \<open>k\<close>, and what the decision of iteration \<open>k\<close> reads
  of them: the pdf index and the evidence estimate of each.
\<close>

definition evidence_nodes :: "Workflow \<Rightarrow> int \<Rightarrow> Node list" where
  "evidence_nodes w k =
     filter (\<lambda>n. iter n = k \<and> ntype n = ExtractEvidence) (map snd (nodes (graph w)))"

definition evidence_pairs :: "Workflow \<Rightarrow> int \<Rightarrow> (int \<times> int) list" where
  "evidence_pairs w k = map (\<lambda>n. (pdf_idx n, evidence_count_est n)) (evidence_nodes w k)"

text \<open>
  Coverage and confidence in the words of the specification: the number of distinct pdf
  indices with a positive estimate, over \<open>max(1, pdfs)\<close>; the total evidence over
  \<open>max(1, pdfs * max(1, subqueries) * 2)\<close>, capped at 1.
\<close>

definition coverage :: "Workflow \<Rightarrow> int \<Rightarrow> real" where
  "coverage w k =
     real (card (fst ` {pe \<in> set (evidence_pairs w k). snd pe > 0}))
       / real_of_int (max 1 (pdfs (params w)))"

definition confidence :: "Workflow \<Rightarrow> int \<Rightarrow> real" where
  "confidence w k =
     min 1 (real_of_int (sum_list (map snd (evidence_pairs w k)))
            / real_of_int (max 1 (pdfs (params w) * max 1 (subqueries_per_iter (params w)) * 2)))"

text \<open>A workflow given by its id, parameters and nodes, with no provider configuration.\<close>

definition workflow_of :: "32 word \<Rightarrow> WorkloadParams \<Rightarrow> (nat \<times> Node) list \<Rightarrow> Workflow" where
  "workflow_of wid ps ns =
     \<lparr>wf_id = wid, params = ps, provider_config = None,
      graph = \<lparr>nodes = ns, next_node_id = Suc (length ns)\<rparr>,
      wf_done = False, completed_iters = 0, stop_iter = None\<rparr>"

text \<open>An ExtractEvidence node of iteration 0 with the given id, pdf index and estimate.\<close>

definition evidence_node :: "nat \<Rightarrow> int \<Rightarrow> int \<Rightarrow> nat \<times> Node" where
  "evidence_node i p e =
     (i, Node_init\<lparr>node_id := i, ntype := ExtractEvidence, resource_class := llm,
           pdf_idx := p, subquery_idx := 0, evidence_count_est := e\<rparr>)"

text \<open>
  Two workflows with the same members and the same keys in the same order; and the relation
  of a workflow to one in which only node states were rewritten, each rewritten state
  allowed by \<open>R\<close> for the node it replaces.
\<close>

definition same_frame :: "Workflow \<Rightarrow> Workflow \<Rightarrow> bool" where
  "same_frame w w' \<longleftrightarrow>
     wf_id w' = wf_id w \<and> params w' = params w \<and> provider_config w' = provider_config w
     \<and> wf_done w' = wf_done w \<and> completed_iters w' = completed_iters w
     \<and> stop_iter w' = stop_iter w \<and> next_node_id (graph w') = next_node_id (graph w)
     \<and> map fst (nodes (graph w')) = map fst (nodes (graph w))"

definition restated :: "(Node \<Rightarrow> NodeState \<Rightarrow> bool) \<Rightarrow> Workflow \<Rightarrow> Workflow \<Rightarrow> bool" where
  "restated R w w' \<longleftrightarrow>
     same_frame w w' \<and>
     (\<forall>k. (lookup w k = None \<longrightarrow> lookup w' k = None) \<and>
          (\<forall>n. lookup w k = Some n \<longrightarrow>
             (\<exists>n'. lookup w' k = Some n' \<and> n'\<lparr>state := state n\<rparr> = n
                    \<and> (state n' = state n \<or> R n (state n')))))"

text \<open>Two workflows with the same keys in which the same nodes are Succeeded.\<close>


definition succ_same :: "Workflow \<Rightarrow> Workflow \<Rightarrow> bool" where
  "succ_same w w' \<longleftrightarrow>
     (\<forall>k. (lookup w k = None \<longleftrightarrow> lookup w' k = None) \<and>
          (\<forall>n n'. lookup w k = Some n \<and> lookup w' k = Some n'
                   \<longrightarrow> (state n = Succeeded \<longleftrightarrow> state n' = Succeeded)))"

text \<open>
  What \<open>RefreshRunnable\<close> may do to a node: move it between WaitingDeps and Runnable. What
  pruning and refreshing together may do: that, or cancel a node that is not terminal.
\<close>

definition refreshable :: "Node \<Rightarrow> NodeState \<Rightarrow> bool" where
  "refreshable n s \<longleftrightarrow>
     (state n = WaitingDeps \<or> state n = Runnable) \<and> (s = WaitingDeps \<or> s = Runnable)"

definition background :: "Node \<Rightarrow> NodeState \<Rightarrow> bool" where
  "background n s \<longleftrightarrow> refreshable n s \<or> (\<not> IsTerminal (state n) \<and> s = Cancelled)"

text \<open>
  What no operation changes in a node once it is in the map: its type, iteration and
  indices, and its evidence estimate. The entries of a workflow are its keys with these,
  in the order of the map. Its edges are read off the \<open>deps\<close> lists, and again off the
  \<open>children\<close> lists.
\<close>

definition node_kind :: "Node \<Rightarrow> NodeType \<times> int \<times> int \<times> int" where
  "node_kind n = (ntype n, iter n, pdf_idx n, subquery_idx n)"

type_synonym entry = "nat \<times> (NodeType \<times> int \<times> int \<times> int) \<times> int"

definition entries :: "Workflow \<Rightarrow> entry list" where
  "entries w = map (\<lambda>(k, n). (k, node_kind n, evidence_count_est n)) (nodes (graph w))"

definition kind_preserving :: "(Node \<Rightarrow> Node) \<Rightarrow> bool" where
  "kind_preserving f \<longleftrightarrow>
     (\<forall>n. node_kind (f n) = node_kind n \<and> evidence_count_est (f n) = evidence_count_est n)"

definition dep_edges :: "Workflow \<Rightarrow> (nat \<times> nat) set" where
  "dep_edges w = {(d, k). \<exists>n. (k, n) \<in> set (nodes (graph w)) \<and> d \<in> set (deps n)}"

definition child_edges :: "Workflow \<Rightarrow> (nat \<times> nat) set" where
  "child_edges w = {(k, c). \<exists>n. (k, n) \<in> set (nodes (graph w)) \<and> c \<in> set (children n)}"

text \<open>Node ids are handed out by the counter: every key is positive and below it.\<close>

definition graph_ok :: "Workflow \<Rightarrow> bool" where
  "graph_ok w \<longleftrightarrow>
     0 < next_node_id (graph w) \<and> (\<forall>k. lookup w k \<noteq> None \<longrightarrow> k < next_node_id (graph w))"

text \<open>The steps of the primitives without their checks.\<close>

definition bump_id :: "Workflow \<Rightarrow> Workflow" where
  "bump_id w = w\<lparr>graph := (graph w)\<lparr>next_node_id := next_node_id (graph w) + 1\<rparr>\<rparr>"

definition append_node :: "nat \<Rightarrow> Node \<Rightarrow> Workflow \<Rightarrow> Workflow" where
  "append_node key n w = w\<lparr>graph := (graph w)\<lparr>nodes := nodes (graph w) @ [(key, n)]\<rparr>\<rparr>"

definition fix_workflow_id :: "Workflow \<Rightarrow> Node \<Rightarrow> Node" where
  "fix_workflow_id w n = (if workflow_id n = 0 then n\<lparr>workflow_id := wf_id w\<rparr> else n)"

definition populate :: "TierConfig list option \<Rightarrow> Node \<Rightarrow> Node" where
  "populate pc n =
     (case pc of None \<Rightarrow> n
      | Some tcs \<Rightarrow> n\<lparr>preference_list := preference_list_for tcs (resource_class n)\<rparr>)"

text \<open>
  The members of a workflow other than its graph; and the relation of a workflow to a
  later one in which the nodes with keys in \<open>K\<close> are as before, up to their children.
\<close>

definition same_members :: "Workflow \<Rightarrow> Workflow \<Rightarrow> bool" where
  "same_members w w' \<longleftrightarrow>
     wf_id w' = wf_id w \<and> params w' = params w \<and> provider_config w' = provider_config w
     \<and> wf_done w' = wf_done w \<and> completed_iters w' = completed_iters w
     \<and> stop_iter w' = stop_iter w"

definition preserves :: "nat set \<Rightarrow> Workflow \<Rightarrow> Workflow \<Rightarrow> bool" where
  "preserves K w w' \<longleftrightarrow>
     same_members w w' \<and>
     (\<forall>k \<in> K. \<forall>n. lookup w k = Some n \<longrightarrow>
        (\<exists>n'. lookup w' k = Some n' \<and> n'\<lparr>children := children n\<rparr> = n))"

text \<open>
  A workflow \<open>w'\<close> grows out of \<open>w\<close> by the entries \<open>es\<close> and the edges \<open>E\<close>: the nodes with
  keys in \<open>K\<close> are kept, the entries are appended, each edge is in a \<open>deps\<close> list and in a
  \<open>children\<close> list, and the counter advanced by the number of entries.
\<close>

definition grows ::
  "nat set \<Rightarrow> Workflow \<Rightarrow> Workflow \<Rightarrow> entry list \<Rightarrow> (nat \<times> nat) set \<Rightarrow> bool" where
  "grows K w w' es E \<longleftrightarrow>
     preserves K w w' \<and> entries w' = entries w @ es
     \<and> dep_edges w' = dep_edges w \<union> E \<and> child_edges w' = child_edges w \<union> E
     \<and> next_node_id (graph w') = next_node_id (graph w) + length es"

text \<open>
  The layout of one expanded iteration. Ids are consecutive from the counter's value \<open>b\<close>:
  each pdf takes \<open>3 + 2K\<close> of them (LoadPDF, Chunk, Embed, then SimilaritySearch and
  ExtractEvidence per subquery), and Aggregate and DecideNext take the last two.
\<close>

definition subquery_entries :: "64 word \<Rightarrow> 32 word \<Rightarrow> int \<Rightarrow> int \<Rightarrow> nat \<Rightarrow> int \<Rightarrow> entry list" where
  "subquery_entries sd wid it p c q =
     [(c, (SimilaritySearch, it, p, q), 0),
      (Suc c, (ExtractEvidence, it, p, q), evidence_estimate sd wid it p q)]"

definition subquery_edges :: "nat \<Rightarrow> nat \<Rightarrow> (nat \<times> nat) set" where
  "subquery_edges e c = {(e, c), (c, Suc c)}"

definition pdf_entries :: "64 word \<Rightarrow> 32 word \<Rightarrow> int \<Rightarrow> nat \<Rightarrow> nat \<Rightarrow> int \<Rightarrow> entry list" where
  "pdf_entries sd wid it K l p =
     [(l, (LoadPDF, it, p, - 1), 0), (l + 1, (Chunk, it, p, - 1), 0),
      (l + 2, (Embed, it, p, - 1), 0)]
     @ concat (map (\<lambda>j. subquery_entries sd wid it p (l + 3 + 2 * j) (int j)) [0..<K])"

definition pdf_edges :: "nat \<Rightarrow> nat \<Rightarrow> nat \<Rightarrow> (nat \<times> nat) set" where
  "pdf_edges plan K l =
     {(plan, l), (l, l + 1), (l + 1, l + 2)}
     \<union> (\<Union>j \<in> {..<K}. subquery_edges (l + 2) (l + 3 + 2 * j))"

definition pdf_extracts :: "nat \<Rightarrow> nat \<Rightarrow> nat list" where
  "pdf_extracts K l = map (\<lambda>j. l + 4 + 2 * j) [0..<K]"

definition iteration_extracts :: "nat \<Rightarrow> nat \<Rightarrow> nat \<Rightarrow> nat list" where
  "iteration_extracts P K b = concat (map (\<lambda>i. pdf_extracts K (b + i * (3 + 2 * K))) [0..<P])"

definition iteration_entries ::
  "64 word \<Rightarrow> 32 word \<Rightarrow> int \<Rightarrow> nat \<Rightarrow> nat \<Rightarrow> nat \<Rightarrow> entry list" where
  "iteration_entries sd wid it P K b =
     concat (map (\<lambda>i. pdf_entries sd wid it K (b + i * (3 + 2 * K)) (int i)) [0..<P])
     @ [(b + P * (3 + 2 * K), (Aggregate, it, - 1, - 1), 0),
        (b + P * (3 + 2 * K) + 1, (DecideNext, it, - 1, - 1), 0)]"

definition iteration_edges :: "nat \<Rightarrow> nat \<Rightarrow> nat \<Rightarrow> nat \<Rightarrow> (nat \<times> nat) set" where
  "iteration_edges plan P K b =
     (\<Union>i \<in> {..<P}. pdf_edges plan K (b + i * (3 + 2 * K)))
     \<union> (if iteration_extracts P K b = [] then {(plan, b + P * (3 + 2 * K))}
        else {(x, b + P * (3 + 2 * K)) | x. x \<in> set (iteration_extracts P K b)})
     \<union> {(b + P * (3 + 2 * K), b + P * (3 + 2 * K) + 1)}"

text \<open>
  The workflow after the body of the pdf loop has added LoadPDF, Chunk and Embed for pdf
  \<open>p\<close> with their three edges, before its loop over subqueries.
\<close>

definition pdf_chain :: "nat \<Rightarrow> int \<Rightarrow> int \<Rightarrow> Workflow \<Rightarrow> Workflow" where
  "pdf_chain plan it p w =
     (let b = next_node_id (graph w) in
      update_node (b + 2) (\<lambda>n. n\<lparr>deps := deps n @ [b + 1]\<rparr>)
     (update_node (b + 1) (\<lambda>n. n\<lparr>children := children n @ [b + 2]\<rparr>)
     (update_node (b + 1) (\<lambda>n. n\<lparr>deps := deps n @ [b]\<rparr>)
     (update_node b (\<lambda>n. n\<lparr>children := children n @ [b + 1]\<rparr>)
     (update_node b (\<lambda>n. n\<lparr>deps := deps n @ [plan]\<rparr>)
     (update_node plan (\<lambda>n. n\<lparr>children := children n @ [b]\<rparr>)
     (update_node (b + 2) (populate (provider_config w))
     (update_node (b + 1) (populate (provider_config w))
     (update_node b (populate (provider_config w))
     (append_node (b + 2) (new_node w (b + 2) Embed it p (- 1))
     (append_node (b + 1) (new_node w (b + 1) Chunk it p (- 1))
     (append_node b (new_node w b LoadPDF it p (- 1))
     (bump_id (bump_id (bump_id w)))))))))))))))"

text \<open>The workflow after Aggregate and DecideNext were added, before their edges.\<close>

definition aggregate_decide :: "int \<Rightarrow> Workflow \<Rightarrow> Workflow" where
  "aggregate_decide it w =
     (let a = next_node_id (graph w) in
      update_node (a + 1) (populate (provider_config w))
     (update_node a (populate (provider_config w))
     (append_node (a + 1) (new_node w (a + 1) DecideNext it (- 1) (- 1))
     (append_node a (new_node w a Aggregate it (- 1) (- 1))
     (bump_id (bump_id w))))))"

text \<open>The Plan node that \<open>OnDecideNext\<close> builds for the iteration after \<open>it\<close>.\<close>

definition next_plan :: "Workflow \<Rightarrow> int \<Rightarrow> Node" where
  "next_plan w it =
     Node_init\<lparr>node_id := next_node_id (graph w), workflow_id := wf_id w, ntype := Plan,
       resource_class := llm, idempotent := True, iter := wrap_int32 (it + 1),
       output_size_est :=
         size_t_of_int
           (wrap_int32 (220 + 15 * subqueries_per_iter (params w) + 4 * pdfs (params w)))\<rparr>"

text \<open>
  The legal moves of the state machine. \<open>target_ok s s'\<close>: the source \<open>s\<close> permits the target
  \<open>s'\<close>. A transition is legal when the state stays, or the source is not terminal and
  permits the target.
\<close>

definition target_ok :: "NodeState \<Rightarrow> NodeState \<Rightarrow> bool" where
  "target_ok s s' =
     (case s' of
        Queued \<Rightarrow> s = Runnable
      | Running \<Rightarrow> s = Queued \<or> s = Runnable
      | Succeeded \<Rightarrow> s = Runnable \<or> s = Queued \<or> s = Running
      | Failed \<Rightarrow> s = Runnable \<or> s = Queued \<or> s = Running
      | _ \<Rightarrow> True)"

definition legal_transition :: "NodeState \<Rightarrow> NodeState \<Rightarrow> bool" where
  "legal_transition s s' \<longleftrightarrow> s = s' \<or> (\<not> IsTerminal s \<and> target_ok s s')"

text \<open>
  A workflow \<open>w'\<close> evolved from \<open>w\<close>: every node of \<open>w\<close> is in \<open>w'\<close> under its key, the same up
  to its children and its state, its state the same or rewritten as \<open>R\<close> allows; the
  parameters and the id are the same, the counter did not decrease and \<open>done\<close> was not reset.
\<close>

definition evolves :: "(Node \<Rightarrow> NodeState \<Rightarrow> bool) \<Rightarrow> Workflow \<Rightarrow> Workflow \<Rightarrow> bool" where
  "evolves R w w' \<longleftrightarrow>
     params w' = params w \<and> wf_id w' = wf_id w
     \<and> next_node_id (graph w) \<le> next_node_id (graph w') \<and> (wf_done w \<longrightarrow> wf_done w')
     \<and> (\<forall>k n. lookup w k = Some n \<longrightarrow>
          (\<exists>n'. lookup w' k = Some n' \<and> n'\<lparr>children := children n, state := state n\<rparr> = n
                 \<and> (state n' = state n \<or> R n (state n'))))"

text \<open>
  One call of an operation took \<open>w\<close> to \<open>w'\<close> within the state machine: every node made a
  legal transition and is otherwise the same up to its children.
\<close>

definition advances :: "Workflow \<Rightarrow> Workflow \<Rightarrow> bool" where
  "advances w w' \<longleftrightarrow> evolves (\<lambda>n s. legal_transition (state n) s) w w'"

text \<open>The number of nodes of type \<open>t\<close> and iteration \<open>k\<close> in a workflow.\<close>

definition count_kind :: "Workflow \<Rightarrow> NodeType \<Rightarrow> int \<Rightarrow> nat" where
  "count_kind w t k =
     length (filter (\<lambda>n. ntype n = t \<and> iter n = k) (map snd (nodes (graph w))))"

text \<open>The same count over a list of entries.\<close>

definition count_entries :: "NodeType \<Rightarrow> int \<Rightarrow> entry list \<Rightarrow> nat" where
  "count_entries t k es = length (filter (\<lambda>e. fst (fst (snd e)) = t \<and> fst (snd (fst (snd e))) = k) es)"

text \<open>
  In a list of entries, every iteration has at most one Aggregate entry and no more
  DecideNext entries than Aggregate entries.
\<close>

definition one_per_iter :: "entry list \<Rightarrow> bool" where
  "one_per_iter es \<longleftrightarrow>
     (\<forall>k. count_entries DecideNext k es \<le> count_entries Aggregate k es
          \<and> count_entries Aggregate k es \<le> 1)"

text \<open>
  The ids of the nodes of an expanded iteration, by pdf \<open>p\<close> and subquery \<open>q\<close>, when the
  counter stood at \<open>b\<close>; the entries of the expansion as a set; and its edges.
\<close>

definition load_id :: "nat \<Rightarrow> nat \<Rightarrow> nat \<Rightarrow> nat" where
  "load_id b K p = b + p * (3 + 2 * K)"

definition chunk_id :: "nat \<Rightarrow> nat \<Rightarrow> nat \<Rightarrow> nat" where
  "chunk_id b K p = load_id b K p + 1"

definition embed_id :: "nat \<Rightarrow> nat \<Rightarrow> nat \<Rightarrow> nat" where
  "embed_id b K p = load_id b K p + 2"

definition search_id :: "nat \<Rightarrow> nat \<Rightarrow> nat \<Rightarrow> nat \<Rightarrow> nat" where
  "search_id b K p q = load_id b K p + 3 + 2 * q"

definition extract_id :: "nat \<Rightarrow> nat \<Rightarrow> nat \<Rightarrow> nat \<Rightarrow> nat" where
  "extract_id b K p q = search_id b K p q + 1"

definition aggregate_id :: "nat \<Rightarrow> nat \<Rightarrow> nat \<Rightarrow> nat" where
  "aggregate_id b P K = b + P * (3 + 2 * K)"

definition decide_id :: "nat \<Rightarrow> nat \<Rightarrow> nat \<Rightarrow> nat" where
  "decide_id b P K = aggregate_id b P K + 1"

definition expansion_nodes :: "64 word \<Rightarrow> 32 word \<Rightarrow> int \<Rightarrow> nat \<Rightarrow> nat \<Rightarrow> nat \<Rightarrow> entry set" where
  "expansion_nodes sd wid k P K b =
     (\<Union>p \<in> {..<P}.
        {(load_id b K p, (LoadPDF, k, int p, - 1), 0),
         (chunk_id b K p, (Chunk, k, int p, - 1), 0),
         (embed_id b K p, (Embed, k, int p, - 1), 0)}
        \<union> (\<Union>q \<in> {..<K}.
             {(search_id b K p q, (SimilaritySearch, k, int p, int q), 0),
              (extract_id b K p q, (ExtractEvidence, k, int p, int q),
               evidence_estimate sd wid k (int p) (int q))}))
     \<union> {(aggregate_id b P K, (Aggregate, k, - 1, - 1), 0),
        (decide_id b P K, (DecideNext, k, - 1, - 1), 0)}"

definition expansion_edges :: "nat \<Rightarrow> nat \<Rightarrow> nat \<Rightarrow> nat \<Rightarrow> (nat \<times> nat) set" where
  "expansion_edges plan P K b =
     (\<Union>p \<in> {..<P}.
        {(plan, load_id b K p), (load_id b K p, chunk_id b K p),
         (chunk_id b K p, embed_id b K p)}
        \<union> (\<Union>q \<in> {..<K}.
             {(embed_id b K p, search_id b K p q),
              (search_id b K p q, extract_id b K p q)}))
     \<union> (if K = 0 then {(plan, aggregate_id b P K)}
        else (\<Union>p \<in> {..<P}. \<Union>q \<in> {..<K}. {(extract_id b K p q, aggregate_id b P K)}))
     \<union> {(aggregate_id b P K, decide_id b P K)}"

text \<open>
  The state of the loops of the expansion, a workflow and the ids of the ExtractEvidence
  nodes so far, is in order for a set \<open>D\<close> of ids: the ids of the workflow lie below its
  counter, and the ids in \<open>D\<close> and the collected ids are ids of the workflow.
\<close>

definition loop_ok :: "nat set \<Rightarrow> Workflow \<times> nat list \<Rightarrow> bool" where
  "loop_ok D s \<longleftrightarrow> graph_ok (fst s) \<and> D \<subseteq> dom (lookup (fst s))
                    \<and> set (snd s) \<subseteq> dom (lookup (fst s))"

section \<open>Example workflows\<close>

text \<open>
  A LoadPDF node that is running and the Chunk node that waits for it, and the workflow
  after the LoadPDF node has succeeded.
\<close>

definition chain_load :: Node where
  "chain_load = Node_init\<lparr>node_id := 2, workflow_id := 7, ntype := LoadPDF,
     resource_class := io, state := Running, children := [3]\<rparr>"

definition chain_chunk :: Node where
  "chain_chunk = Node_init\<lparr>node_id := 3, workflow_id := 7, ntype := Chunk, deps := [2]\<rparr>"

definition chain_example :: Workflow where
  "chain_example =
     \<lparr>wf_id = 7, params = \<lparr>pdfs = 1, subqueries_per_iter = 1, max_iters = 2, seed = 1\<rparr>,
      provider_config = None,
      graph = \<lparr>nodes = [(2, chain_load), (3, chain_chunk)], next_node_id = 4\<rparr>,
      wf_done = False, completed_iters = 0, stop_iter = None\<rparr>"

definition chain_succeeded :: Workflow where
  "chain_succeeded =
     chain_example\<lparr>graph := \<lparr>nodes = [(2, chain_load\<lparr>state := Succeeded\<rparr>),
                                       (3, chain_chunk\<lparr>state := Runnable\<rparr>)],
                              next_node_id = 4\<rparr>\<rparr>"

text \<open>
  A workflow with one pdf and \<open>2^30\<close> subqueries per iteration, holding one ExtractEvidence
  node of iteration 0 with one piece of evidence for pdf 0.
\<close>

definition overflow_example :: Workflow where
  "overflow_example =
     workflow_of 1 \<lparr>pdfs = 1, subqueries_per_iter = 1073741824, max_iters = 3, seed = 1\<rparr>
       [evidence_node 6 0 1]"

text \<open>
  A workflow whose DecideNext node of iteration 0 has succeeded, with \<open>max_iters = 1\<close> and a
  node of iteration 1 that waits; and the workflow after the decision to stop. The same
  DecideNext node in a workflow with \<open>max_iters = 3\<close> and no evidence; and the workflow
  after the decision to continue.
\<close>

definition decide_node :: Node where
  "decide_node = Node_init\<lparr>node_id := 2, workflow_id := 7, ntype := DecideNext,
     resource_class := llm, state := Succeeded\<rparr>"






text \<open>
  A workflow with one pdf and one subquery per iteration whose Plan node of iteration 0 has
  succeeded, and the workflow after the expansion of iteration 0.
\<close>

definition plan_node_example :: Node where
  "plan_node_example = Node_init\<lparr>node_id := 2, workflow_id := 7, ntype := Plan,
     resource_class := llm, state := Succeeded\<rparr>"

definition plan_example :: Workflow where
  "plan_example =
     \<lparr>wf_id = 7, params = \<lparr>pdfs = 1, subqueries_per_iter = 1, max_iters = 2, seed = 1\<rparr>,
      provider_config = None,
      graph = \<lparr>nodes = [(2, plan_node_example)], next_node_id = 3\<rparr>,
      wf_done = False, completed_iters = 0, stop_iter = None\<rparr>"

definition plan_expanded :: Workflow where
  "plan_expanded =
     \<lparr>wf_id = 7, params = \<lparr>pdfs = 1, subqueries_per_iter = 1, max_iters = 2, seed = 1\<rparr>,
      provider_config = None,
      graph = \<lparr>nodes =
        [(2, plan_node_example\<lparr>children := [3]\<rparr>),
         (3, Node_init\<lparr>node_id := 3, workflow_id := 7, ntype := LoadPDF, resource_class := io,
               pdf_idx := 0, deps := [2], children := [4]\<rparr>),
         (4, Node_init\<lparr>node_id := 4, workflow_id := 7, ntype := Chunk, resource_class := cpu,
               pdf_idx := 0, deps := [3], children := [5]\<rparr>),
         (5, Node_init\<lparr>node_id := 5, workflow_id := 7, ntype := Embed, resource_class := embed,
               pdf_idx := 0, deps := [4], children := [6]\<rparr>),
         (6, Node_init\<lparr>node_id := 6, workflow_id := 7, ntype := SimilaritySearch,
               resource_class := cpu, pdf_idx := 0, subquery_idx := 0,
               deps := [5], children := [7]\<rparr>),
         (7, Node_init\<lparr>node_id := 7, workflow_id := 7, ntype := ExtractEvidence,
               resource_class := llm, pdf_idx := 0, subquery_idx := 0,
               deps := [6], children := [8],
               evidence_count_est := evidence_estimate 1 7 0 0 0\<rparr>),
         (8, Node_init\<lparr>node_id := 8, workflow_id := 7, ntype := Aggregate,
               resource_class := cpu, deps := [7], children := [9]\<rparr>),
         (9, Node_init\<lparr>node_id := 9, workflow_id := 7, ntype := DecideNext,
               resource_class := llm, deps := [8]\<rparr>)],
        next_node_id = 10\<rparr>,
      wf_done = False, completed_iters = 0, stop_iter = None\<rparr>"

text \<open>
  The workflow that the constructor builds for these parameters and an empty list of tiers,
  and the workflow after its Plan node has succeeded.
\<close>

definition init_params :: WorkloadParams where
  "init_params = \<lparr>pdfs = 1, subqueries_per_iter = 1, max_iters = 2, seed = 1\<rparr>"

definition init_example :: Workflow where
  "init_example =
     \<lparr>wf_id = 7, params = init_params, provider_config = Some [],
      graph = \<lparr>nodes =
        [(1, Node_init\<lparr>node_id := 1, workflow_id := 7, ntype := Plan, resource_class := llm,
               state := Runnable, output_size_est := 213\<rparr>)],
        next_node_id = 2\<rparr>,
      wf_done = False, completed_iters = 0, stop_iter = None\<rparr>"

definition init_succeeded :: Workflow where
  "init_succeeded =
     \<lparr>wf_id = 7, params = init_params, provider_config = Some [],
      graph = \<lparr>nodes =
        [(1, Node_init\<lparr>node_id := 1, workflow_id := 7, ntype := Plan, resource_class := llm,
               state := Succeeded, output_size_est := 213, children := [2]\<rparr>),
         (2, Node_init\<lparr>node_id := 2, workflow_id := 7, ntype := LoadPDF, resource_class := io,
               state := Runnable, pdf_idx := 0, deps := [1], children := [3]\<rparr>),
         (3, Node_init\<lparr>node_id := 3, workflow_id := 7, ntype := Chunk, resource_class := cpu,
               pdf_idx := 0, deps := [2], children := [4]\<rparr>),
         (4, Node_init\<lparr>node_id := 4, workflow_id := 7, ntype := Embed, resource_class := embed,
               pdf_idx := 0, deps := [3], children := [5]\<rparr>),
         (5, Node_init\<lparr>node_id := 5, workflow_id := 7, ntype := SimilaritySearch,
               resource_class := cpu, pdf_idx := 0, subquery_idx := 0,
               deps := [4], children := [6]\<rparr>),
         (6, Node_init\<lparr>node_id := 6, workflow_id := 7, ntype := ExtractEvidence,
               resource_class := llm, pdf_idx := 0, subquery_idx := 0,
               deps := [5], children := [7],
               evidence_count_est := evidence_estimate 1 7 0 0 0\<rparr>),
         (7, Node_init\<lparr>node_id := 7, workflow_id := 7, ntype := Aggregate,
               resource_class := cpu, deps := [6], children := [8]\<rparr>),
         (8, Node_init\<lparr>node_id := 8, workflow_id := 7, ntype := DecideNext,
               resource_class := llm, deps := [7]\<rparr>)],
        next_node_id = 9\<rparr>,
      wf_done = False, completed_iters = 0, stop_iter = None\<rparr>"

section \<open>scheduler.h, scheduler.cpp: the choice of an execution option\<close>

datatype SchedulerPolicy = fifo_cheapest | dag_cheapest | dag_escalation | full

















section \<open>Properties of the generator\<close>

lemma snd_Uniform01: "snd (Uniform01 r) = snd (U64 r)"
  by (simp add: Uniform01_def split: prod.splits)

text \<open>
  C10. \<open>Bernoulli p\<close> returns false for \<open>p \<le> 0\<close> and true for \<open>p \<ge> 1\<close> and leaves the
  256-bit state as it was; for \<open>0 < p < 1\<close> it draws one uniform, returns whether the draw
  is strictly below \<open>p\<close>, and leaves the state that a single \<open>U64\<close> call leaves.
\<close>

theorem Bernoulli_boundary_and_draw:
  "(p \<le> 0 \<longrightarrow> Bernoulli p r = (False, r)) \<and>
   (p \<ge> 1 \<longrightarrow> Bernoulli p r = (True, r)) \<and>
   (0 < p \<and> p < 1 \<longrightarrow>
      Bernoulli p r = (fst (Uniform01 r) < p, snd (Uniform01 r)) \<and>
      snd (Bernoulli p r) = snd (U64 r))"
  using snd_Uniform01 [of r] by (auto simp: Bernoulli_def split: prod.splits)

lemma U64_example:
  "U64 \<lparr>s0 = 1, s1 = 2, s2 = 3, s3 = 4\<rparr> =
     (41943041, \<lparr>s0 = 7, s1 = 0, s2 = 262146, s3 = 211106232532992\<rparr>)"
  by code_simp

lemma drop_bit_example: "unat (drop_bit 11 (41943041 :: 64 word)) = 20480"
  by simp

lemma Uniform01_example:
  "Uniform01 \<lparr>s0 = 1, s1 = 2, s2 = 3, s3 = 4\<rparr> =
     (20480 / 9007199254740992, \<lparr>s0 = 7, s1 = 0, s2 = 262146, s3 = 211106232532992\<rparr>)"
  by (simp add: Uniform01_def U64_example drop_bit_example)

theorem Bernoulli_boundary_and_draw_witness:
  "Bernoulli 0 \<lparr>s0 = 1, s1 = 2, s2 = 3, s3 = 4\<rparr> = (False, \<lparr>s0 = 1, s1 = 2, s2 = 3, s3 = 4\<rparr>) \<and>
   Bernoulli 1 \<lparr>s0 = 1, s1 = 2, s2 = 3, s3 = 4\<rparr> = (True, \<lparr>s0 = 1, s1 = 2, s2 = 3, s3 = 4\<rparr>) \<and>
   Bernoulli (1 / 2) \<lparr>s0 = 1, s1 = 2, s2 = 3, s3 = 4\<rparr> =
     (True, \<lparr>s0 = 7, s1 = 0, s2 = 262146, s3 = 211106232532992\<rparr>)"
  using Bernoulli_boundary_and_draw [of 0 "\<lparr>s0 = 1, s1 = 2, s2 = 3, s3 = 4\<rparr>"]
        Bernoulli_boundary_and_draw [of 1 "\<lparr>s0 = 1, s1 = 2, s2 = 3, s3 = 4\<rparr>"]
        Bernoulli_boundary_and_draw [of "1 / 2" "\<lparr>s0 = 1, s1 = 2, s2 = 3, s3 = 4\<rparr>"]
  by (simp add: Uniform01_example)

section \<open>Properties of a tier\<close>

lemma wrap_int32_id: "- 2147483648 \<le> x \<Longrightarrow> x < 2147483648 \<Longrightarrow> wrap_int32 x = x"
  by (simp add: wrap_int32_def)

lemma tier_inv_start:
  "in_flight t0 = 0 \<Longrightarrow> 0 \<le> concurrency_cap (tier_config t0) \<Longrightarrow> tier_inv t0 (tier_start t0)"
  by (simp add: tier_inv_def tier_start_def)

lemma tier_step_inv:
  assumes cap: "concurrency_cap (tier_config t0) < 2147483648"
    and inv: "tier_inv t0 h" and step: "tier_step x h = Some h'"
  shows "tier_inv t0 h'"
proof (cases x)
  case (OpEnqueue a)
  with inv step show ?thesis by (auto simp: tier_inv_def Enqueue_def)
next
  case (OpTryDequeue out)
  show ?thesis
  proof (cases "queue (tier h) = [] \<or> in_flight (tier h) \<ge> concurrency_cap (tier_config (tier h))")
    case True
    with inv step OpTryDequeue show ?thesis by (auto simp: tier_inv_def TryDequeue_def)
  next
    case False
    then obtain a q where q: "queue (tier h) = a # q" by (cases "queue (tier h)") auto
    from False inv cap have "wrap_int32 (in_flight (tier h) + 1) = in_flight (tier h) + 1"
      by (intro wrap_int32_id) (auto simp: tier_inv_def)
    with False inv step OpTryDequeue q show ?thesis
      by (auto simp: tier_inv_def TryDequeue_def)
  qed
next
  case OpBlockingDequeue
  with step have en: "queue (tier h) \<noteq> []"
    "in_flight (tier h) < concurrency_cap (tier_config (tier h))"
    by (auto simp: BlockingDequeue_def split: if_splits)
  then obtain a q where q: "queue (tier h) = a # q" by (cases "queue (tier h)") auto
  from en inv cap have "wrap_int32 (in_flight (tier h) + 1) = in_flight (tier h) + 1"
    by (intro wrap_int32_id) (auto simp: tier_inv_def)
  with en inv step OpBlockingDequeue q show ?thesis
    by (auto simp: tier_inv_def BlockingDequeue_def)
next
  case OpOnAttemptFinish
  with step have f: "finished h < length (dequeued h)" by (auto split: if_splits)
  with inv cap have "wrap_int32 (in_flight (tier h) - 1) = in_flight (tier h) - 1"
    by (intro wrap_int32_id) (auto simp: tier_inv_def)
  with f inv step OpOnAttemptFinish show ?thesis
    by (auto simp: tier_inv_def OnAttemptFinish_def)
qed

lemma tier_run_inv:
  "concurrency_cap (tier_config t0) < 2147483648 \<Longrightarrow> tier_inv t0 h \<Longrightarrow>
   tier_run xs h = Some h' \<Longrightarrow> tier_inv t0 h'"
proof (induction xs arbitrary: h)
  case Nil
  then show ?case by simp
next
  case (Cons x xs)
  then show ?case by (auto split: option.splits dest: tier_step_inv)
qed

text \<open>
  C8, as amended. \<open>TryDequeue\<close> returns false and changes nothing when the queue is empty or the
  counter has reached the cap; otherwise it hands out the front attempt, removes it and
  increments the counter. Hence, for a tier whose cap is a non-negative \<open>int\<close> and whose
  counter starts at 0, after any sequence of \<open>Enqueue\<close>, \<open>TryDequeue\<close>, \<open>BlockingDequeue\<close>
  and \<open>OnAttemptFinish\<close> (each \<open>OnAttemptFinish\<close> finishing an attempt that was dequeued)
  the counter is at most the cap, it counts the attempts dequeued and not finished, and the
  attempts were dequeued in the order of their enqueues.
\<close>

theorem tier_cap_and_fifo:
  assumes "in_flight t0 = 0"
    and "0 \<le> concurrency_cap (tier_config t0)"
    and "concurrency_cap (tier_config t0) < 2147483648"
    and "tier_run ops (tier_start t0) = Some h"
  shows "(queue t = [] \<or> in_flight t \<ge> concurrency_cap (tier_config t)
            \<longrightarrow> TryDequeue t out = (False, out, t))
       \<and> (queue t \<noteq> [] \<and> in_flight t < concurrency_cap (tier_config t)
            \<longrightarrow> TryDequeue t out =
                (True, hd (queue t),
                 t\<lparr>queue := tl (queue t), in_flight := wrap_int32 (in_flight t + 1)\<rparr>))
       \<and> (queue t \<noteq> [] \<and> in_flight t < concurrency_cap (tier_config t)
             \<and> - 2147483648 \<le> in_flight t \<and> concurrency_cap (tier_config t) < 2147483648
            \<longrightarrow> in_flight (snd (snd (TryDequeue t out))) = in_flight t + 1
              \<and> queue t = fst (snd (TryDequeue t out)) # queue (snd (snd (TryDequeue t out))))
       \<and> in_flight (tier h) \<le> concurrency_cap (tier_config t0)
       \<and> in_flight (tier h) = int (length (dequeued h)) - int (finished h)
       \<and> dequeued h @ queue (tier h) = queue t0 @ enqueued h"
proof -
  have "tier_inv t0 h"
    using assms tier_run_inv tier_inv_start by blast
  then show ?thesis
    by (auto simp: tier_inv_def TryDequeue_def wrap_int32_id)
qed

theorem tier_cap_and_fifo_witness:
  "tier_run [OpEnqueue (QueuedAttempt_init 1 1), OpEnqueue (QueuedAttempt_init 2 2),
        OpTryDequeue (QueuedAttempt_init 0 0), OpTryDequeue (QueuedAttempt_init 0 0),
        OpOnAttemptFinish, OpBlockingDequeue]
      (tier_start (Tier_init (llm_slow\<lparr>concurrency_cap := 1\<rparr>)))
   = Some \<lparr>tier = \<lparr>tier_config = llm_slow\<lparr>concurrency_cap := 1\<rparr>, queue = [],
                     in_flight = 1\<rparr>,
       enqueued = [QueuedAttempt_init 1 1, QueuedAttempt_init 2 2],
       dequeued = [QueuedAttempt_init 1 1, QueuedAttempt_init 2 2], finished = 1\<rparr>
   \<and> TryDequeue (Tier_init llm_slow) (QueuedAttempt_init 0 0)
       = (False, QueuedAttempt_init 0 0, Tier_init llm_slow)
   \<and> TryDequeue (Enqueue (QueuedAttempt_init 1 1) (Tier_init llm_slow)) (QueuedAttempt_init 0 0)
       = (True, QueuedAttempt_init 1 1, \<lparr>tier_config = llm_slow, queue = [], in_flight = 1\<rparr>)
   \<and> (1::int) \<le> concurrency_cap (llm_slow\<lparr>concurrency_cap := 1\<rparr>)"
proof -
  let ?ops = "[OpEnqueue (QueuedAttempt_init 1 1), OpEnqueue (QueuedAttempt_init 2 2),
        OpTryDequeue (QueuedAttempt_init 0 0), OpTryDequeue (QueuedAttempt_init 0 0),
        OpOnAttemptFinish, OpBlockingDequeue]"
  let ?t0 = "Tier_init (llm_slow\<lparr>concurrency_cap := 1\<rparr>)"
  let ?h = "\<lparr>tier = \<lparr>tier_config = llm_slow\<lparr>concurrency_cap := 1\<rparr>, queue = [],
                    in_flight = 1\<rparr>,
       enqueued = [QueuedAttempt_init 1 1, QueuedAttempt_init 2 2],
       dequeued = [QueuedAttempt_init 1 1, QueuedAttempt_init 2 2], finished = 1\<rparr>"
  have r: "tier_run ?ops (tier_start ?t0) = Some ?h"
    by (simp add: tier_start_def Tier_init_def TryDequeue_def BlockingDequeue_def Enqueue_def
        OnAttemptFinish_def wrap_int32_def llm_slow_def)
  have a: "in_flight ?t0 = 0" "0 \<le> concurrency_cap (tier_config ?t0)"
    "concurrency_cap (tier_config ?t0) < 2147483648"
    by (simp_all add: Tier_init_def)
  from tier_cap_and_fifo [OF a r, of "Tier_init llm_slow" "QueuedAttempt_init 0 0"]
       tier_cap_and_fifo [OF a r, of "Enqueue (QueuedAttempt_init 1 1) (Tier_init llm_slow)"
         "QueuedAttempt_init 0 0"]
       r
  show ?thesis
    by (simp add: Tier_init_def Enqueue_def llm_slow_def wrap_int32_def)
qed

text \<open>
  The claim as stated, for every tier, fails for a tier whose cap is negative. \<open>Tier::Tier\<close>
  accepts any cap; with the cap \<open>- 1\<close> the counter of the tier, 0 before any operation,
  already exceeds the cap.
\<close>

theorem tier_negative_cap_counterexample:
  "tier_run [] (tier_start (Tier_init (llm_slow\<lparr>concurrency_cap := - 1\<rparr>)))
     = Some \<lparr>tier = \<lparr>tier_config = llm_slow\<lparr>concurrency_cap := - 1\<rparr>, queue = [],
                       in_flight = 0\<rparr>,
             enqueued = [], dequeued = [], finished = 0\<rparr>
   \<and> in_flight (Tier_init (llm_slow\<lparr>concurrency_cap := - 1\<rparr>)) = 0
   \<and> \<not> in_flight (tier (tier_start (Tier_init (llm_slow\<lparr>concurrency_cap := - 1\<rparr>))))
        \<le> concurrency_cap (tier_config (Tier_init (llm_slow\<lparr>concurrency_cap := - 1\<rparr>)))"
  by (simp add: tier_start_def Tier_init_def)

section \<open>Properties of the latency sampler\<close>

lemma Get_init_SimilaritySearch:
  "Get LatencyConfig_init SimilaritySearch =
     \<lparr>dist = Linear, param1 = 20, param2 = 2, tail_multiplier = 1, tail_prob = 0\<rparr>"
  by (simp add: Get_def LatencyConfig_init_def Let_def)

lemma SampleServiceTime_zero_tail_prob:
  "tail_prob ps = 0 \<Longrightarrow> tail_multiplier ps \<noteq> 1 \<Longrightarrow>
   SampleServiceTime D ps ctx r =
     map_option (\<lambda>(raw, r1). (max 1 (raw * tail_multiplier ps), r1))
       (SampleRaw D ps ctx r)"
  by (auto simp: SampleServiceTime_def split: option.splits)

text \<open>
  C5. The claim is that the raw service time is multiplied by \<open>tail_multiplier\<close> exactly
  when the Bernoulli draw with \<open>tail_prob\<close> is true, so never when \<open>tail_prob = 0\<close>. The
  sampler of the tiers multiplies whenever \<open>tail_prob = 0\<close> and \<open>tail_multiplier \<noteq> 1\<close>: for
  a similarity search with linear parameters 20 and 2, 50 chunks, \<open>tail_prob = 0\<close> and
  \<open>tail_multiplier = 3\<close> the raw time is 120 and the time returned is 360, with no draw
  made. The local workers' copy of the sampler returns 120 on the same parameters.
\<close>

theorem SampleServiceTime_zero_tail_prob_multiplies:
  "SampleRaw dists_diverge
     \<lparr>dist = Linear, param1 = 20, param2 = 2, tail_multiplier = 3, tail_prob = 0\<rparr>
     \<lparr>node_type = SimilaritySearch, pdf_size_est = 0, num_chunks_est = 50,
      token_length_est = 100\<rparr>
     (SeededRng_init 1) = Some (120, SeededRng_init 1)
   \<and> SampleServiceTime dists_diverge
     \<lparr>dist = Linear, param1 = 20, param2 = 2, tail_multiplier = 3, tail_prob = 0\<rparr>
     \<lparr>node_type = SimilaritySearch, pdf_size_est = 0, num_chunks_est = 50,
      token_length_est = 100\<rparr>
     (SeededRng_init 1) = Some (360, SeededRng_init 1)
   \<and> SampleLocalServiceTime dists_diverge SimilaritySearch
     \<lparr>node_type = SimilaritySearch, pdf_size_est = 0, num_chunks_est = 50,
      token_length_est = 100\<rparr>
     [SimilaritySearch \<mapsto>
        \<lparr>dist = Linear, param1 = 20, param2 = 2, tail_multiplier = 3, tail_prob = 0\<rparr>]
     (SeededRng_init 1) = Some (120, SeededRng_init 1)"
  by (simp add: SampleServiceTime_def SampleRaw_def SampleLocalServiceTime_def Get_def)

text \<open>
  C6, as amended. When the service time is sampled as \<open>st\<close>, \<open>Sample\<close> returns a sample
  with \<open>failed\<close> true exactly when the Bernoulli draw with \<open>p_fail\<close> is true, and then
  \<open>timeout\<close> is false and the service time is \<open>st\<close>; otherwise \<open>timeout\<close> is true exactly
  when \<open>timeout_ms > 0\<close> and \<open>st\<close> exceeds \<open>timeout_ms\<close>, and then the service time is
  \<open>timeout_ms\<close>; \<open>failed\<close> and \<open>timeout\<close> are never both true.
\<close>

theorem Sample_failed_timeout:
  assumes "SampleServiceTime D (Get config (node_type ctx)) ctx r = Some (st, r1)"
  shows "\<exists>s. Sample D config ctx tmo pf r = Some (s, snd (Bernoulli pf r1))
           \<and> failed s = fst (Bernoulli pf r1)
           \<and> (failed s \<longrightarrow> \<not> timeout s \<and> service_time_ms s = st)
           \<and> (\<not> failed s \<longrightarrow> (timeout s \<longleftrightarrow> tmo > 0 \<and> st > real_of_int tmo))
           \<and> (timeout s \<longrightarrow> service_time_ms s = real_of_int tmo)
           \<and> (\<not> timeout s \<longrightarrow> service_time_ms s = st)
           \<and> \<not> (failed s \<and> timeout s)"
  using assms by (auto simp: Sample_def split: prod.splits)

theorem Sample_failed_timeout_witness:
  "\<exists>s. Sample dists_diverge LatencyConfig_init
     \<lparr>node_type = SimilaritySearch, pdf_size_est = 0, num_chunks_est = 50,
      token_length_est = 100\<rparr>
     100 0 (SeededRng_init 1) = Some (s, SeededRng_init 1)
     \<and> \<not> failed s \<and> timeout s \<and> service_time_ms s = 100"
proof -
  have h: "SampleServiceTime dists_diverge (Get LatencyConfig_init (node_type
     \<lparr>node_type = SimilaritySearch, pdf_size_est = 0, num_chunks_est = 50,
      token_length_est = 100\<rparr>))
     \<lparr>node_type = SimilaritySearch, pdf_size_est = 0, num_chunks_est = 50,
      token_length_est = 100\<rparr>
     (SeededRng_init 1) = Some (120, SeededRng_init 1)"
    by (simp add: SampleServiceTime_def SampleRaw_def Get_init_SimilaritySearch)
  show ?thesis
    using Sample_failed_timeout [OF h, of 100 0] by (auto simp: Bernoulli_def)
qed

text \<open>
  The claim C6 as stated, without the guard \<open>timeout_ms > 0\<close>, fails: with
  \<open>timeout_ms = 0\<close> and \<open>p_fail = 0\<close> the sampled time 120 exceeds \<open>timeout_ms\<close>, and the
  sample returned has \<open>timeout\<close> false and the service time 120.
\<close>

theorem Sample_timeout_counterexample:
  "Sample dists_diverge LatencyConfig_init
     \<lparr>node_type = SimilaritySearch, pdf_size_est = 0, num_chunks_est = 50,
      token_length_est = 100\<rparr>
     0 0 (SeededRng_init 1)
   = Some (\<lparr>service_time_ms = 120, failed = False, timeout = False\<rparr>, SeededRng_init 1)
   \<and> SampleServiceTime dists_diverge (Get LatencyConfig_init SimilaritySearch)
     \<lparr>node_type = SimilaritySearch, pdf_size_est = 0, num_chunks_est = 50,
      token_length_est = 100\<rparr>
     (SeededRng_init 1) = Some (120, SeededRng_init 1)
   \<and> (120::real) > real_of_int 0"
  by (simp add: Sample_def SampleServiceTime_def SampleRaw_def Get_init_SimilaritySearch
      Bernoulli_def)

section \<open>Properties of the continue/stop decision\<close>

lemma wrap_add_aux: "(((a + c) mod m - c) + b + c) mod m = (a + b + c) mod (m::int)"
proof -
  have "((a + c) mod m - c) + b + c = (a + c) mod m + b" by simp
  moreover have "((a + c) mod m + b) mod m = (a + c + b) mod m" by (rule mod_add_left_eq)
  moreover have "a + c + b = a + b + c" by simp
  ultimately show ?thesis by (simp only:)
qed

lemma wrap_mult_aux: "(((a + c) mod m - c) * b + c) mod m = (a * b + c) mod (m::int)"
proof -
  have "((a + c) mod m - c) mod m = (a + c - c) mod m" by (rule mod_diff_left_eq)
  then have 1: "((a + c) mod m - c) mod m = a mod m" by (simp only: add_diff_cancel_right')
  have "(((a + c) mod m - c) * b) mod m = ((((a + c) mod m - c) mod m) * b) mod m"
    by (rule mod_mult_left_eq [symmetric])
  also have "\<dots> = (a mod m * b) mod m" by (simp only: 1)
  also have "\<dots> = (a * b) mod m" by (rule mod_mult_left_eq)
  finally have 2: "(((a + c) mod m - c) * b) mod m = (a * b) mod m" .
  have "(((a + c) mod m - c) * b + c) mod m = ((((a + c) mod m - c) * b) mod m + c) mod m"
    by (rule mod_add_left_eq [symmetric])
  also have "\<dots> = ((a * b) mod m + c) mod m" by (simp only: 2)
  also have "\<dots> = (a * b + c) mod m" by (rule mod_add_left_eq)
  finally show ?thesis .
qed

lemma wrap_int32_add_left: "wrap_int32 (wrap_int32 a + b) = wrap_int32 (a + b)"
  unfolding wrap_int32_def wrap_add_aux ..

lemma wrap_int32_mult_left: "wrap_int32 (wrap_int32 a * b) = wrap_int32 (a * b)"
  unfolding wrap_int32_def wrap_mult_aux ..

lemma wrap_int32_range: "int_range x \<Longrightarrow> wrap_int32 x = x"
  by (simp add: int_range_def wrap_int32_def)

lemma fold_evidence_total:
  "fold (\<lambda>(k, n) total. if P n then wrap_int32 (total + f n) else total) xs (wrap_int32 a)
     = wrap_int32 (a + sum_list (map f (filter P (map snd xs))))"
proof (induction xs arbitrary: a)
  case Nil
  then show ?case by simp
next
  case (Cons x xs)
  obtain k n where x: "x = (k, n)" by (cases x)
  show ?case
    using Cons.IH [of a] Cons.IH [of "a + f n"]
    by (simp add: x wrap_int32_add_left add.assoc)
qed

lemma IterEvidenceTotal_sum:
  "IterEvidenceTotal w k = wrap_int32 (sum_list (map snd (evidence_pairs w k)))"
proof -
  have z: "wrap_int32 0 = 0" by (simp add: wrap_int32_def)
  show ?thesis
    using fold_evidence_total
      [of "\<lambda>n. iter n = k \<and> ntype n = ExtractEvidence" evidence_count_est "nodes (graph w)" 0]
    by (simp add: IterEvidenceTotal_def evidence_pairs_def evidence_nodes_def comp_def z)
qed

lemma fold_covered:
  "distinct c \<Longrightarrow>
   distinct (fold (\<lambda>(k, n) covered. if Q n then covered
                     else if R n then List.insert (g n) covered else covered) xs c)
   \<and> set (fold (\<lambda>(k, n) covered. if Q n then covered
                     else if R n then List.insert (g n) covered else covered) xs c)
       = set c \<union> g ` {n \<in> snd ` set xs. \<not> Q n \<and> R n}"
proof (induction xs arbitrary: c)
  case Nil
  then show ?case by simp
next
  case (Cons x xs)
  obtain k n where x: "x = (k, n)" by (cases x)
  show ?case
    using Cons.IH [of c] Cons.IH [of "List.insert (g n) c"] Cons.prems
    by (auto simp: x)
qed

lemma IterPdfCoverageCount_card:
  "IterPdfCoverageCount w k
     = wrap_int32 (int (card (fst ` {pe \<in> set (evidence_pairs w k). snd pe > 0})))"
proof -
  let ?f = "\<lambda>(k', n) covered.
              if iter n \<noteq> k \<or> ntype n \<noteq> ExtractEvidence then covered
              else if evidence_count_est n > 0 then List.insert (pdf_idx n) covered
              else covered"
  have d: "distinct (fold ?f (nodes (graph w)) [])"
    and s: "set (fold ?f (nodes (graph w)) [])
            = pdf_idx ` {n \<in> snd ` set (nodes (graph w)).
                 \<not> (iter n \<noteq> k \<or> ntype n \<noteq> ExtractEvidence) \<and> evidence_count_est n > 0}"
    using fold_covered [of "[]" "\<lambda>n. iter n \<noteq> k \<or> ntype n \<noteq> ExtractEvidence"
        "\<lambda>n. evidence_count_est n > 0" pdf_idx "nodes (graph w)"]
    by simp_all
  have "fst ` {pe \<in> set (evidence_pairs w k). snd pe > 0}
        = pdf_idx ` {n \<in> snd ` set (nodes (graph w)).
                 \<not> (iter n \<noteq> k \<or> ntype n \<noteq> ExtractEvidence) \<and> evidence_count_est n > 0}"
    by (force simp: evidence_pairs_def evidence_nodes_def)
  moreover from d
  have "card (set (fold ?f (nodes (graph w)) [])) = length (fold ?f (nodes (graph w)) [])"
    by (rule distinct_card)
  ultimately show ?thesis
    unfolding IterPdfCoverageCount_def using s by simp
qed

text \<open>
  The decision with its arithmetic as the code performs it: the wrapped values in place of
  the sum, the count, \<open>k + 1\<close> and the product.
\<close>

lemma ComputeDecideAction_wrapped:
  "ComputeDecideAction w k =
     (if wrap_int32 (k + 1) \<ge> max_iters (params w)
         \<or> (real_of_int (IterPdfCoverageCount w k) / real_of_int (max 1 (pdfs (params w)))
               \<ge> 60 / 100
            \<and> min 1 (real_of_int (IterEvidenceTotal w k)
                 / real_of_int (max 1 (wrap_int32
                     (pdfs (params w) * max 1 (subqueries_per_iter (params w)) * 2))))
               \<ge> 50 / 100)
         \<or> (real_of_int (IterPdfCoverageCount w k) / real_of_int (max 1 (pdfs (params w)))
               \<ge> 45 / 100
            \<and> min 1 (real_of_int (IterEvidenceTotal w k)
                 / real_of_int (max 1 (wrap_int32
                     (pdfs (params w) * max 1 (subqueries_per_iter (params w)) * 2))))
               \<ge> 35 / 100
            \<and> decide_u01 (seed (params w)) (wf_id w) k > 70 / 100)
      then Stop else Continue)"
  unfolding ComputeDecideAction_def Let_def wrap_int32_mult_left by auto

lemma ComputeDecideAction_unfold:
  assumes "int_range (k + 1)"
    and "int_range (pdfs (params w) * max 1 (subqueries_per_iter (params w)) * 2)"
    and "int_range (sum_list (map snd (evidence_pairs w k)))"
    and "int_range (int (card (fst ` {pe \<in> set (evidence_pairs w k). snd pe > 0})))"
  shows "ComputeDecideAction w k =
     (if k + 1 \<ge> max_iters (params w)
         \<or> (coverage w k \<ge> 60 / 100 \<and> confidence w k \<ge> 50 / 100)
         \<or> (coverage w k \<ge> 45 / 100 \<and> confidence w k \<ge> 35 / 100
             \<and> decide_u01 (seed (params w)) (wf_id w) k > 70 / 100)
      then Stop else Continue)"
proof -
  have cov: "real_of_int (IterPdfCoverageCount w k) / real_of_int (max 1 (pdfs (params w)))
             = coverage w k"
    using assms(4) by (simp add: coverage_def IterPdfCoverageCount_card wrap_int32_range)
  have conf: "min 1 (real_of_int (IterEvidenceTotal w k)
                / real_of_int (max 1 (wrap_int32 (pdfs (params w)
                                       * max 1 (subqueries_per_iter (params w)) * 2))))
              = confidence w k"
    using assms(2,3) by (simp add: confidence_def IterEvidenceTotal_sum wrap_int32_range)
  have it: "wrap_int32 (k + 1) = k + 1" using assms(1) by (rule wrap_int32_range)
  show ?thesis
    unfolding ComputeDecideAction_wrapped cov conf it by simp
qed

lemma ComputeDecideAction_cong:
  assumes "params w = params w'" "wf_id w = wf_id w'"
    and "mset (evidence_pairs w k) = mset (evidence_pairs w' k)"
  shows "ComputeDecideAction w k = ComputeDecideAction w' k"
proof -
  from assms(3) have "set (evidence_pairs w k) = set (evidence_pairs w' k)"
    by (rule mset_eq_setD)
  then have c: "IterPdfCoverageCount w k = IterPdfCoverageCount w' k"
    by (simp add: IterPdfCoverageCount_card)
  from assms(3)
  have "mset (map snd (evidence_pairs w k)) = mset (map snd (evidence_pairs w' k))"
    by (metis mset_map)
  then have "sum_list (map snd (evidence_pairs w k)) = sum_list (map snd (evidence_pairs w' k))"
    by (metis sum_mset_sum_list)
  then have t: "IterEvidenceTotal w k = IterEvidenceTotal w' k"
    by (simp add: IterEvidenceTotal_sum)
  show ?thesis
    unfolding ComputeDecideAction_wrapped c t using assms(1,2) by simp
qed

text \<open>
  C3, as amended. Let \<open>k + 1\<close>, the product \<open>pdfs * max(1, subqueries) * 2\<close>, the total
  evidence of iteration \<open>k\<close> and the number of pdfs covered at iteration \<open>k\<close> be values of
  a 32-bit \<open>int\<close>. Then the decision of iteration \<open>k\<close> is Stop exactly when
  \<open>k + 1 \<ge> max_iters\<close>, or coverage is at least 0.60 and confidence at least 0.50, or
  coverage is at least 0.45, confidence at least 0.35 and the tie-breaker exceeds 0.70;
  otherwise it is Continue. It is a function of the workflow's parameters (the seed among
  them), its id, the iteration, and the pdf indices and evidence estimates of the
  ExtractEvidence nodes of that iteration, in whatever order the map holds them: two
  workflows that agree on these decide alike.
\<close>

theorem ComputeDecideAction_rule:
  assumes "int_range (k + 1)"
    and "int_range (pdfs (params w) * max 1 (subqueries_per_iter (params w)) * 2)"
    and "int_range (sum_list (map snd (evidence_pairs w k)))"
    and "int_range (int (card (fst ` {pe \<in> set (evidence_pairs w k). snd pe > 0})))"
  shows "(ComputeDecideAction w k = Stop \<longleftrightarrow>
      k + 1 \<ge> max_iters (params w)
      \<or> (coverage w k \<ge> 60 / 100 \<and> confidence w k \<ge> 50 / 100)
      \<or> (coverage w k \<ge> 45 / 100 \<and> confidence w k \<ge> 35 / 100
          \<and> decide_u01 (seed (params w)) (wf_id w) k > 70 / 100))
   \<and> (ComputeDecideAction w k \<noteq> Stop \<longrightarrow> ComputeDecideAction w k = Continue)
   \<and> (params w = params w' \<and> wf_id w = wf_id w'
        \<and> mset (evidence_pairs w k) = mset (evidence_pairs w' k)
      \<longrightarrow> ComputeDecideAction w k = ComputeDecideAction w' k)"
proof (intro conjI impI)
  show "ComputeDecideAction w k = Stop \<longleftrightarrow>
      k + 1 \<ge> max_iters (params w)
      \<or> (coverage w k \<ge> 60 / 100 \<and> confidence w k \<ge> 50 / 100)
      \<or> (coverage w k \<ge> 45 / 100 \<and> confidence w k \<ge> 35 / 100
          \<and> decide_u01 (seed (params w)) (wf_id w) k > 70 / 100)"
    unfolding ComputeDecideAction_unfold [OF assms] by simp
  show "ComputeDecideAction w k = Continue" if "ComputeDecideAction w k \<noteq> Stop"
    using that by (cases "ComputeDecideAction w k") simp_all
  show "ComputeDecideAction w k = ComputeDecideAction w' k"
    if "params w = params w' \<and> wf_id w = wf_id w'
        \<and> mset (evidence_pairs w k) = mset (evidence_pairs w' k)"
    using that by (intro ComputeDecideAction_cong) simp_all
qed

lemma workflow_of_sel:
  "params (workflow_of wid ps ns) = ps" "wf_id (workflow_of wid ps ns) = wid"
  "nodes (graph (workflow_of wid ps ns)) = ns"
  by (simp_all add: workflow_of_def)

lemma evidence_pairs_example:
  "evidence_pairs (workflow_of 1 \<lparr>pdfs = 2, subqueries_per_iter = 1, max_iters = 3, seed = 1\<rparr>
      [evidence_node 6 0 2, evidence_node 11 1 3]) 0 = [(0, 2), (1, 3)]"
  "evidence_pairs (workflow_of 1 \<lparr>pdfs = 2, subqueries_per_iter = 1, max_iters = 3, seed = 1\<rparr>
      [evidence_node 11 1 3, evidence_node 6 0 2]) 0 = [(1, 3), (0, 2)]"
  by (simp_all add: evidence_pairs_def evidence_nodes_def workflow_of_sel evidence_node_def
      Node_init_def)

lemma covered_example:
  "{pe \<in> set [(0::int, 2::int), (1, 3)]. snd pe > 0} = {(0, 2), (1, 3)}"
  "{pe \<in> set [(1::int, 3::int), (0, 2)]. snd pe > 0} = {(0, 2), (1, 3)}"
  by auto

lemma coverage_example:
  "coverage (workflow_of 1 \<lparr>pdfs = 2, subqueries_per_iter = 1, max_iters = 3, seed = 1\<rparr>
      [evidence_node 6 0 2, evidence_node 11 1 3]) 0 = 1"
  using covered_example by (simp add: coverage_def evidence_pairs_example workflow_of_sel)

lemma confidence_example:
  "confidence (workflow_of 1 \<lparr>pdfs = 2, subqueries_per_iter = 1, max_iters = 3, seed = 1\<rparr>
      [evidence_node 6 0 2, evidence_node 11 1 3]) 0 = 1"
  by (simp add: confidence_def evidence_pairs_example workflow_of_sel)

theorem ComputeDecideAction_rule_witness:
  "int_range (0 + 1) \<and> int_range (2 * max 1 1 * 2) \<and> int_range (sum_list [2, 3])
   \<and> int_range (int (card {0::int, 1}))
   \<and> ComputeDecideAction
     (workflow_of 1 \<lparr>pdfs = 2, subqueries_per_iter = 1, max_iters = 3, seed = 1\<rparr>
        [evidence_node 6 0 2, evidence_node 11 1 3]) 0 = Stop
   \<and> ComputeDecideAction
     (workflow_of 1 \<lparr>pdfs = 2, subqueries_per_iter = 1, max_iters = 3, seed = 1\<rparr>
        [evidence_node 11 1 3, evidence_node 6 0 2]) 0 = Stop"
  using covered_example ComputeDecideAction_rule
    [of 0 "workflow_of 1 \<lparr>pdfs = 2, subqueries_per_iter = 1, max_iters = 3, seed = 1\<rparr>
           [evidence_node 6 0 2, evidence_node 11 1 3]"
        "workflow_of 1 \<lparr>pdfs = 2, subqueries_per_iter = 1, max_iters = 3, seed = 1\<rparr>
           [evidence_node 11 1 3, evidence_node 6 0 2]"]
  by (auto simp: coverage_example confidence_example evidence_pairs_example workflow_of_sel
      int_range_def)

text \<open>
  Without the bounds the rule fails. With one pdf and \<open>2^30\<close> subqueries per iteration the
  product \<open>pdfs * max(1, subqueries) * 2\<close> is \<open>2^31\<close>, which the code computes as
  \<open>- 2^31\<close>; the denominator \<open>max(1, - 2^31)\<close> is 1, so one piece of evidence gives the
  code a confidence of 1 and it stops, where the confidence of the rule is \<open>1 / 2^31\<close> and
  the rule continues.
\<close>

theorem ComputeDecideAction_overflow_counterexample:
  "ComputeDecideAction overflow_example 0 = Stop
   \<and> \<not> (0 + 1 \<ge> max_iters (params overflow_example)
      \<or> (coverage overflow_example 0 \<ge> 60 / 100 \<and> confidence overflow_example 0 \<ge> 50 / 100)
      \<or> (coverage overflow_example 0 \<ge> 45 / 100 \<and> confidence overflow_example 0 \<ge> 35 / 100
          \<and> decide_u01 (seed (params overflow_example)) (wf_id overflow_example) 0 > 70 / 100))
   \<and> \<not> int_range (pdfs (params overflow_example)
                     * max 1 (subqueries_per_iter (params overflow_example)) * 2)"
proof -
  have p: "evidence_pairs overflow_example 0 = [(0, 1)]"
    by (simp add: overflow_example_def evidence_pairs_def evidence_nodes_def workflow_of_sel
        evidence_node_def Node_init_def)
  have s: "{pe \<in> set [(0::int, 1::int)]. snd pe > 0} = {(0, 1)}" by auto
  have t: "IterEvidenceTotal overflow_example 0 = 1"
    by (simp add: IterEvidenceTotal_sum p wrap_int32_def)
  have c: "IterPdfCoverageCount overflow_example 0 = 1"
    using s by (simp add: IterPdfCoverageCount_card p wrap_int32_def)
  have ps: "params overflow_example
      = \<lparr>pdfs = 1, subqueries_per_iter = 1073741824, max_iters = 3, seed = 1\<rparr>"
    by (simp add: overflow_example_def workflow_of_sel)
  have conf: "confidence overflow_example 0 = 1 / 2147483648"
    by (simp add: confidence_def p ps)
  have stop: "ComputeDecideAction overflow_example 0 = Stop"
    unfolding ComputeDecideAction_wrapped t c ps by (simp add: wrap_int32_def)
  show ?thesis
    by (simp add: stop conf ps int_range_def)
qed

section \<open>Workflow graphs: basic facts\<close>

lemma bindE_simps [simp]:
  "bindE (Inr x) f = f x" "bindE (Inl e) f = Inl e"
  by (simp_all add: bindE_def)

lemma bindE_eq_Inr: "bindE m f = Inr y \<longleftrightarrow> (\<exists>x. m = Inr x \<and> f x = Inr y)"
  by (cases m) auto

lemma foldE_append: "foldE f (xs @ ys) s = bindE (foldE f xs s) (foldE f ys)"
  by (induction xs arbitrary: s) (auto simp: bindE_def split: sum.splits)

lemma lookup_update_node:
  "lookup (update_node k f w) k' = (if k' = k then map_option f (lookup w k) else lookup w k')"
proof -
  have "map_of (map (\<lambda>(k', n). if k' = k then (k', f n) else (k', n)) xs) k'
        = (if k' = k then map_option f (map_of xs k) else map_of xs k')" for xs
    by (induction xs) auto
  then show ?thesis by (simp add: lookup_def update_node_def)
qed

lemma update_node_fields [simp]:
  "wf_id (update_node k f w) = wf_id w"
  "params (update_node k f w) = params w"
  "provider_config (update_node k f w) = provider_config w"
  "wf_done (update_node k f w) = wf_done w"
  "completed_iters (update_node k f w) = completed_iters w"
  "stop_iter (update_node k f w) = stop_iter w"
  "next_node_id (graph (update_node k f w)) = next_node_id (graph w)"
  "map fst (nodes (graph (update_node k f w))) = map fst (nodes (graph w))"
  by (auto simp: update_node_def split: prod.splits)

lemma node_eq_Inr [simp]: "node w k = Inr n \<longleftrightarrow> lookup w k = Some n"
  by (simp add: node_def split: option.splits)

lemma restated_refl: "restated R w w"
  by (auto simp: restated_def same_frame_def)

lemma restated_trans:
  assumes "restated R w1 w2" "restated R w2 w3"
    and "\<And>n s s'. R n s \<Longrightarrow> R (n\<lparr>state := s\<rparr>) s' \<Longrightarrow> s' = state n \<or> R n s'"
  shows "restated R w1 w3"
  unfolding restated_def
proof (intro conjI allI impI)
  show "same_frame w1 w3" using assms(1,2) by (auto simp: restated_def same_frame_def)
next
  fix k assume "lookup w1 k = None"
  with assms(1,2) show "lookup w3 k = None" by (auto simp: restated_def)
next
  fix k n assume n: "lookup w1 k = Some n"
  with assms(1) obtain n2 where n2: "lookup w2 k = Some n2" "n2\<lparr>state := state n\<rparr> = n"
    "state n2 = state n \<or> R n (state n2)"
    unfolding restated_def by blast
  with assms(2) obtain n3 where n3: "lookup w3 k = Some n3" "n3\<lparr>state := state n2\<rparr> = n2"
    "state n3 = state n2 \<or> R n2 (state n3)"
    unfolding restated_def by blast
  have e2: "n2 = n\<lparr>state := state n2\<rparr>" using n2(2) by (metis Node.surjective Node.update_convs(6))
  have "n3\<lparr>state := state n\<rparr> = n"
    using n2(2) n3(2) by (metis Node.surjective Node.update_convs(6))
  moreover have "state n3 = state n \<or> R n (state n3)"
  proof (cases "state n2 = state n")
    case True
    have "n2\<lparr>state := state n2\<rparr> = n2" by simp
    with n2(2) True have "n2 = n" by metis
    with n3(3) show ?thesis by simp
  next
    case False
    with n2(3) have r: "R n (state n2)" by simp
    show ?thesis
    proof (cases "state n3 = state n2")
      case True with r show ?thesis by simp
    next
      case False
      with n3(3) have "R n2 (state n3)" by simp
      with e2 have "R (n\<lparr>state := state n2\<rparr>) (state n3)" by simp
      with r assms(3) show ?thesis by blast
    qed
  qed
  ultimately show "\<exists>n'. lookup w3 k = Some n' \<and> n'\<lparr>state := state n\<rparr> = n
                    \<and> (state n' = state n \<or> R n (state n'))"
    using n3(1) by blast
qed

lemma restated_update:
  assumes "lookup w k = Some n" "s = state n \<or> R n s"
  shows "restated R w (update_node k (\<lambda>n. n\<lparr>state := s\<rparr>) w)"
  using assms
  by (auto simp: restated_def same_frame_def lookup_update_node)

lemma DepsSatisfied_loop_cong:
  "succ_same w w' \<Longrightarrow> DepsSatisfied_loop w ds = DepsSatisfied_loop w' ds"
proof (induction ds)
  case Nil
  then show ?case by simp
next
  case (Cons d ds)
  show ?case
  proof (cases "lookup w d")
    case None
    with Cons.prems have "lookup w' d = None" by (auto simp: succ_same_def)
    with None show ?thesis by (simp add: node_def)
  next
    case (Some n)
    from Cons.prems have "(lookup w d = None) = (lookup w' d = None)"
      unfolding succ_same_def by blast
    with Some obtain n' where n': "lookup w' d = Some n'"
      by (cases "lookup w' d") auto
    with Some Cons.prems have "state n = Succeeded \<longleftrightarrow> state n' = Succeeded"
      by (auto simp: succ_same_def)
    with Some n' Cons show ?thesis by (simp add: node_def)
  qed
qed

lemma restated_succ_same:
  assumes "restated R w w'" "\<And>n s. R n s \<Longrightarrow> state n \<noteq> Succeeded \<and> s \<noteq> Succeeded"
  shows "succ_same w w'"
  unfolding succ_same_def
proof (intro allI conjI impI)
  fix k
  show "(lookup w k = None) = (lookup w' k = None)"
    using assms(1) unfolding restated_def by (cases "lookup w k") auto
next
  fix k n n' assume a: "lookup w k = Some n \<and> lookup w' k = Some n'"
  with assms(1) have "state n' = state n \<or> R n (state n')"
    unfolding restated_def by fastforce
  with assms(2) show "(state n = Succeeded) = (state n' = Succeeded)" by auto
qed

lemma restated_deps:
  "restated R w w' \<Longrightarrow> lookup w k = Some n \<Longrightarrow> lookup w' k = Some n' \<Longrightarrow> deps n' = deps n"
  unfolding restated_def by (metis Node.select_convs(10) Node.surjective Node.update_convs(6) option.inject)


lemma lookup_prune_body:
  "lookup (PruneAfterStop_body stop a w) k =
     (case lookup w k of None \<Rightarrow> None
      | Some n \<Rightarrow> Some (if k = a \<and> \<not> IsTerminal (state n) \<and> iter n > stop
                        then n\<lparr>state := Cancelled\<rparr> else n))"
  by (auto simp: PruneAfterStop_body_def lookup_update_node split: option.splits)

lemma lookup_prune_fold:
  "lookup (fold (PruneAfterStop_body stop) ks w) k =
     (case lookup w k of None \<Rightarrow> None
      | Some n \<Rightarrow> Some (if k \<in> set ks \<and> \<not> IsTerminal (state n) \<and> iter n > stop
                        then n\<lparr>state := Cancelled\<rparr> else n))"
proof (induction ks arbitrary: w)
  case Nil
  then show ?case by (simp split: option.splits)
next
  case (Cons a ks)
  show ?case
    by (auto simp: Cons.IH lookup_prune_body IsTerminal_def split: option.splits)
qed

lemma prune_body_frame: "same_frame w (PruneAfterStop_body stop k w)"
  by (auto simp: same_frame_def PruneAfterStop_body_def split: option.splits)

lemma same_frame_trans: "same_frame a b \<Longrightarrow> same_frame b c \<Longrightarrow> same_frame a c"
  by (simp add: same_frame_def)

lemma prune_fold_frame: "same_frame w (fold (PruneAfterStop_body stop) ks w)"
proof (induction ks arbitrary: w)
  case Nil
  then show ?case by (simp add: same_frame_def)
next
  case (Cons a ks)
  show ?case using prune_body_frame [of w stop a] Cons.IH [of "PruneAfterStop_body stop a w"]
    by (auto intro: same_frame_trans)
qed

section \<open>RefreshRunnable and PruneAfterStop\<close>

lemma refreshable_not_succ: "refreshable n s \<Longrightarrow> state n \<noteq> Succeeded \<and> s \<noteq> Succeeded"
  by (auto simp: refreshable_def)

lemma refreshable_trans:
  "refreshable n s \<Longrightarrow> refreshable (n\<lparr>state := s\<rparr>) s' \<Longrightarrow> s' = state n \<or> refreshable n s'"
  by (auto simp: refreshable_def)

lemma background_trans:
  "background n s \<Longrightarrow> background (n\<lparr>state := s\<rparr>) s' \<Longrightarrow> s' = state n \<or> background n s'"
  by (auto simp: background_def refreshable_def IsTerminal_def)

lemma restated_mono:
  "restated R w w' \<Longrightarrow> (\<And>n s. R n s \<Longrightarrow> R' n s) \<Longrightarrow> restated R' w w'"
  unfolding restated_def by blast

lemma DepsSatisfied_restated:
  assumes "restated refreshable w w'" "lookup w k = Some n" "lookup w' k = Some n'"
  shows "DepsSatisfied w' n' = DepsSatisfied w n"
proof -
  have "succ_same w w'" using assms(1) refreshable_not_succ by (rule restated_succ_same)
  moreover have "deps n' = deps n" using assms by (rule restated_deps)
  ultimately show ?thesis by (simp add: DepsSatisfied_def DepsSatisfied_loop_cong)
qed

lemma refresh_body_cases:
  assumes "RefreshRunnable_body k (nl, w) = Inr (nl', w')"
  obtains (absent) "lookup w k = None" "w' = w"
  | (skip) n where "lookup w k = Some n"
      "IsTerminal (state n) \<or> state n = Queued \<or> state n = Running" "w' = w"
  | (keep) n ready where "lookup w k = Some n"
      "state n = WaitingDeps \<or> state n = Runnable"
      "DepsSatisfied w n = Inr ready" "state n = (if ready then Runnable else WaitingDeps)"
      "w' = w"
  | (flip) n ready where "lookup w k = Some n"
      "state n = WaitingDeps \<or> state n = Runnable"
      "DepsSatisfied w n = Inr ready" "state n \<noteq> (if ready then Runnable else WaitingDeps)"
      "w' = update_node k (\<lambda>n. n\<lparr>state := (if ready then Runnable else WaitingDeps)\<rparr>) w"
proof (cases "lookup w k")
  case None
  with assms have "w' = w" by (simp add: RefreshRunnable_body_def)
  with None show ?thesis by (rule absent)
next
  case (Some n)
  show ?thesis
  proof (cases "IsTerminal (state n) \<or> state n = Queued \<or> state n = Running")
    case True
    with assms Some have "w' = w" by (simp add: RefreshRunnable_body_def)
    with Some True show ?thesis by (rule skip)
  next
    case False
    then have st: "state n = WaitingDeps \<or> state n = Runnable"
      by (cases "state n") (auto simp: IsTerminal_def)
    from assms Some False obtain ready where d: "DepsSatisfied w n = Inr ready"
      by (cases "DepsSatisfied w n") (auto simp: RefreshRunnable_body_def)
    show ?thesis
    proof (cases "state n = (if ready then Runnable else WaitingDeps)")
      case True
      with assms Some False d st have "w' = w"
        by (auto simp: RefreshRunnable_body_def split: if_splits)
      with Some st d True show ?thesis by (rule keep)
    next
      case neq: False
      with assms Some False d st
      have "w' = update_node k (\<lambda>n. n\<lparr>state := (if ready then Runnable else WaitingDeps)\<rparr>) w"
        by (auto simp: RefreshRunnable_body_def split: if_splits)
      with Some st d neq show ?thesis by (rule flip)
    qed
  qed
qed

lemma refresh_body_restated:
  assumes "RefreshRunnable_body k (nl, w) = Inr (nl', w')"
  shows "restated refreshable w w'"
  using assms
proof (cases rule: refresh_body_cases)
  case (flip n ready)
  have "refreshable n (if ready then Runnable else WaitingDeps)"
    using flip(2) by (auto simp: refreshable_def)
  with flip(1,5) show ?thesis by (simp add: restated_update)
qed (simp_all add: restated_refl)

lemma refresh_body_other:
  assumes "RefreshRunnable_body k (nl, w) = Inr (nl', w')" "k' \<noteq> k"
  shows "lookup w' k' = lookup w k'"
  using assms(1)
  by (cases rule: refresh_body_cases) (use assms(2) in \<open>simp_all add: lookup_update_node\<close>)

lemma refresh_body_post:
  assumes "RefreshRunnable_body k (nl, w) = Inr (nl', w')" "lookup w' k = Some n'"
    "state n' = Runnable"
  shows "DepsSatisfied w' n' = Inr True"
proof -
  have r: "restated refreshable w w'" using assms(1) by (rule refresh_body_restated)
  from assms(1) show ?thesis
  proof (cases rule: refresh_body_cases)
    case absent
    with assms(2) show ?thesis by simp
  next
    case (skip n)
    with assms(2,3) show ?thesis by (auto simp: IsTerminal_def)
  next
    case (keep n ready)
    with assms(2,3) have "ready" by (auto split: if_splits)
    with keep assms(2) show ?thesis by simp
  next
    case (flip n ready)
    with assms(2) have "state n' = (if ready then Runnable else WaitingDeps)"
      by (auto simp: lookup_update_node)
    with assms(3) have "ready" by (auto split: if_splits)
    moreover have "DepsSatisfied w' n' = DepsSatisfied w n"
      using r flip(1) assms(2) by (rule DepsSatisfied_restated)
    ultimately show ?thesis using flip(3) by simp
  qed
qed

lemma refresh_loop_restated:
  "foldE RefreshRunnable_body ks (nl, w) = Inr (nl', w') \<Longrightarrow> restated refreshable w w'"
proof (induction ks arbitrary: nl w)
  case Nil
  then show ?case by (simp add: restated_refl)
next
  case (Cons k ks)
  from Cons.prems obtain nl1 w1 where
    b: "RefreshRunnable_body k (nl, w) = Inr (nl1, w1)"
    and r: "foldE RefreshRunnable_body ks (nl1, w1) = Inr (nl', w')"
    by (auto simp: bindE_eq_Inr)
  from refresh_body_restated [OF b] Cons.IH [OF r] show ?case
    by (rule restated_trans) (rule refreshable_trans)
qed

lemma refresh_loop_other:
  "foldE RefreshRunnable_body ks (nl, w) = Inr (nl', w') \<Longrightarrow> k \<notin> set ks
   \<Longrightarrow> lookup w' k = lookup w k"
proof (induction ks arbitrary: nl w)
  case Nil
  then show ?case by simp
next
  case (Cons a ks)
  from Cons.prems obtain nl1 w1 where
    b: "RefreshRunnable_body a (nl, w) = Inr (nl1, w1)"
    and r: "foldE RefreshRunnable_body ks (nl1, w1) = Inr (nl', w')"
    by (auto simp: bindE_eq_Inr)
  from Cons.prems(2) have "k \<noteq> a" "k \<notin> set ks" by auto
  with refresh_body_other [OF b, of k] Cons.IH [OF r] show ?case by simp
qed

lemma refresh_loop_post:
  "foldE RefreshRunnable_body ks (nl, w) = Inr (nl', w') \<Longrightarrow> k \<in> set ks
   \<Longrightarrow> lookup w' k = Some n' \<Longrightarrow> state n' = Runnable \<Longrightarrow> DepsSatisfied w' n' = Inr True"
proof (induction ks arbitrary: nl w)
  case Nil
  then show ?case by simp
next
  case (Cons a ks)
  from Cons.prems(1) obtain nl1 w1 where
    b: "RefreshRunnable_body a (nl, w) = Inr (nl1, w1)"
    and r: "foldE RefreshRunnable_body ks (nl1, w1) = Inr (nl', w')"
    by (auto simp: bindE_eq_Inr)
  show ?case
  proof (cases "k \<in> set ks")
    case True
    with Cons.IH [OF r] Cons.prems show ?thesis by simp
  next
    case False
    with Cons.prems(2) have ka: "k = a" by simp
    from refresh_loop_other [OF r False] Cons.prems(3) have l1: "lookup w1 k = Some n'" by simp
    with refresh_body_post [OF b] ka Cons.prems(4) have "DepsSatisfied w1 n' = Inr True" by simp
    moreover have "DepsSatisfied w' n' = DepsSatisfied w1 n'"
      using refresh_loop_restated [OF r] l1 Cons.prems(3) by (rule DepsSatisfied_restated)
    ultimately show ?thesis by simp
  qed
qed

lemma lookup_in_keys: "lookup w k = Some n \<Longrightarrow> k \<in> set (map fst (nodes (graph w)))"
  unfolding lookup_def by (metis map_of_eq_None_iff option.distinct(1) set_map)

lemma RefreshRunnable_restated:
  "RefreshRunnable w = Inr (nl, w') \<Longrightarrow> restated refreshable w w'"
  unfolding RefreshRunnable_def by (rule refresh_loop_restated)

lemma RefreshRunnable_post:
  assumes "RefreshRunnable w = Inr (nl, w')" "lookup w' k = Some n'" "state n' = Runnable"
  shows "DepsSatisfied w' n' = Inr True"
proof -
  have "restated refreshable w w'" using assms(1) by (rule RefreshRunnable_restated)
  then have "map fst (nodes (graph w')) = map fst (nodes (graph w))"
    by (simp add: restated_def same_frame_def)
  with lookup_in_keys [OF assms(2)] have "k \<in> set (map fst (nodes (graph w)))" by simp
  with assms(1) show ?thesis
    unfolding RefreshRunnable_def using assms(2,3) by (rule refresh_loop_post)
qed

section \<open>Adding nodes and edges\<close>

lemma NewNodeId_eq: "NewNodeId w = (next_node_id (graph w), bump_id w)"
  by (simp add: NewNodeId_def bump_id_def)

lemma bump_id_simps [simp]:
  "lookup (bump_id w) k = lookup w k"
  "next_node_id (graph (bump_id w)) = Suc (next_node_id (graph w))"
  "nodes (graph (bump_id w)) = nodes (graph w)"
  "entries (bump_id w) = entries w"
  "dep_edges (bump_id w) = dep_edges w"
  "child_edges (bump_id w) = child_edges w"
  "wf_id (bump_id w) = wf_id w" "params (bump_id w) = params w"
  "provider_config (bump_id w) = provider_config w" "wf_done (bump_id w) = wf_done w"
  "completed_iters (bump_id w) = completed_iters w" "stop_iter (bump_id w) = stop_iter w"
  by (simp_all add: bump_id_def lookup_def entries_def dep_edges_def child_edges_def)

lemma append_node_simps [simp]:
  "lookup (append_node key n w) k =
     (case lookup w k of Some x \<Rightarrow> Some x | None \<Rightarrow> if k = key then Some n else None)"
  "next_node_id (graph (append_node key n w)) = next_node_id (graph w)"
  "nodes (graph (append_node key n w)) = nodes (graph w) @ [(key, n)]"
  "entries (append_node key n w) = entries w @ [(key, node_kind n, evidence_count_est n)]"
  "wf_id (append_node key n w) = wf_id w" "params (append_node key n w) = params w"
  "provider_config (append_node key n w) = provider_config w"
  "wf_done (append_node key n w) = wf_done w"
  "completed_iters (append_node key n w) = completed_iters w"
  "stop_iter (append_node key n w) = stop_iter w"
  by (auto simp: append_node_def lookup_def entries_def map_add_def split: option.splits)

lemma append_node_edges [simp]:
  "dep_edges (append_node key n w) = dep_edges w \<union> {(d, key) | d. d \<in> set (deps n)}"
  "child_edges (append_node key n w) = child_edges w \<union> {(key, c) | c. c \<in> set (children n)}"
  by (auto simp: append_node_def dep_edges_def child_edges_def)

lemma entries_update_node [simp]:
  "kind_preserving f \<Longrightarrow> entries (update_node k f w) = entries w"
  by (auto simp: entries_def update_node_def kind_preserving_def split: prod.splits)

lemma lookup_Some_iff: "lookup w k \<noteq> None \<longleftrightarrow> (\<exists>n. (k, n) \<in> set (nodes (graph w)))"
  unfolding lookup_def by (force simp: map_of_eq_None_iff)

lemma in_update_nodes:
  "(k', n') \<in> set (nodes (graph (update_node k f w)))
     \<longleftrightarrow> (\<exists>n. (k', n) \<in> set (nodes (graph w)) \<and> n' = (if k' = k then f n else n))"
  by (force simp: update_node_def split: if_splits)

lemma dep_edges_update_node:
  "dep_edges (update_node k f w) =
     {(d, k'). \<exists>n. (k', n) \<in> set (nodes (graph w))
                  \<and> d \<in> set (deps (if k' = k then f n else n))}"
  unfolding dep_edges_def in_update_nodes by blast

lemma child_edges_update_node:
  "child_edges (update_node k f w) =
     {(k', c). \<exists>n. (k', n) \<in> set (nodes (graph w))
                  \<and> c \<in> set (children (if k' = k then f n else n))}"
  unfolding child_edges_def in_update_nodes by blast

lemma dep_edges_update_simps [simp]:
  "dep_edges (update_node k (\<lambda>n. n\<lparr>deps := deps n @ [d]\<rparr>) w)
     = dep_edges w \<union> (if lookup w k \<noteq> None then {(d, k)} else {})"
  "dep_edges (update_node k (\<lambda>n. n\<lparr>children := h n\<rparr>) w) = dep_edges w"
  "dep_edges (update_node k (\<lambda>n. n\<lparr>state := s n\<rparr>) w) = dep_edges w"
  "dep_edges (update_node k (populate pc) w) = dep_edges w"
  unfolding dep_edges_update_node lookup_Some_iff
  by (auto simp: dep_edges_def populate_def split: if_splits option.splits)

lemma child_edges_update_simps [simp]:
  "child_edges (update_node k (\<lambda>n. n\<lparr>children := children n @ [c]\<rparr>) w)
     = child_edges w \<union> (if lookup w k \<noteq> None then {(k, c)} else {})"
  "child_edges (update_node k (\<lambda>n. n\<lparr>deps := g n\<rparr>) w) = child_edges w"
  "child_edges (update_node k (\<lambda>n. n\<lparr>state := s n\<rparr>) w) = child_edges w"
  "child_edges (update_node k (populate pc) w) = child_edges w"
  unfolding child_edges_update_node lookup_Some_iff
  by (auto simp: child_edges_def populate_def split: if_splits option.splits)

lemma kind_preserving_simps [simp]:
  "kind_preserving (\<lambda>n. n\<lparr>deps := g n\<rparr>)"
  "kind_preserving (\<lambda>n. n\<lparr>children := h n\<rparr>)"
  "kind_preserving (\<lambda>n. n\<lparr>state := s n\<rparr>)"
  "kind_preserving (populate pc)"
  by (auto simp: kind_preserving_def node_kind_def populate_def split: option.splits)

lemma AddNode_eq:
  "node_id n \<noteq> 0 \<Longrightarrow>
   AddNode n w = (if lookup w (node_id n) \<noteq> None then Inl DuplicateNodeId
                  else Inr (node_id n, append_node (node_id n) (fix_workflow_id w n) w))"
  by (auto simp: AddNode_def append_node_def fix_workflow_id_def Let_def)

lemma AddEdge_eq:
  "AddEdge from to w =
     (if lookup w from = None \<or> lookup w to = None then Inl UnknownNodeId
      else Inr (update_node to (\<lambda>b. b\<lparr>deps := deps b @ [from]\<rparr>)
             (update_node from (\<lambda>a. a\<lparr>children := children a @ [to]\<rparr>) w)))"
  by (auto simp: AddEdge_def node_def split: option.splits)

lemma update_node_id: "update_node k (\<lambda>n. n) w = w"
  by (simp add: update_node_def case_prod_beta' cong: map_cong)

lemma Populate_eq:
  "PopulatePreferenceListForNode nid w = update_node nid (populate (provider_config w)) w"
proof (cases "provider_config w")
  case None
  have "populate None = (\<lambda>n. n)" by (simp add: populate_def fun_eq_iff)
  with None show ?thesis by (simp add: PopulatePreferenceListForNode_def update_node_id)
next
  case (Some tcs)
  have "populate (Some tcs) = (\<lambda>n. n\<lparr>preference_list := preference_list_for tcs (resource_class n)\<rparr>)"
    by (simp add: populate_def fun_eq_iff)
  with Some show ?thesis by (simp add: PopulatePreferenceListForNode_def)
qed

lemma Initialize_eq:
  "InitializeStateFromDeps nid w = Inr w' \<Longrightarrow>
   \<exists>s. lookup w nid \<noteq> None \<and> w' = update_node nid (\<lambda>n. n\<lparr>state := s n\<rparr>) w"
proof -
  assume a: "InitializeStateFromDeps nid w = Inr w'"
  then obtain n where n: "lookup w nid = Some n"
    by (auto simp: InitializeStateFromDeps_def bindE_eq_Inr)
  show ?thesis
  proof (cases "IsTerminal (state n)")
    case True
    with a n have "w' = w" by (simp add: InitializeStateFromDeps_def node_def)
    then have "w' = update_node nid (\<lambda>n. n\<lparr>state := state n\<rparr>) w"
      by (simp add: update_node_id)
    with n show ?thesis by blast
  next
    case False
    with a n show ?thesis
      by (auto simp: InitializeStateFromDeps_def node_def bindE_eq_Inr)
  qed
qed

lemma fix_workflow_id_simps [simp]:
  "node_kind (fix_workflow_id w n) = node_kind n"
  "state (fix_workflow_id w n) = state n"
  "deps (fix_workflow_id w n) = deps n"
  "children (fix_workflow_id w n) = children n"
  "evidence_count_est (fix_workflow_id w n) = evidence_count_est n"
  "node_id (fix_workflow_id w n) = node_id n"
  by (simp_all add: fix_workflow_id_def node_kind_def)

lemma new_node_simps [simp]:
  "node_kind (new_node w i t it p q) = (t, it, p, q)"
  "state (new_node w i t it p q) = WaitingDeps"
  "deps (new_node w i t it p q) = []"
  "children (new_node w i t it p q) = []"
  "node_id (new_node w i t it p q) = i"
  "evidence_count_est (new_node w i t it p q) = 0"
  by (simp_all add: new_node_def node_kind_def Node_init_def)

lemma preserves_refl: "preserves K w w"
  by (auto simp: preserves_def same_members_def)

lemma children_restore_trans:
  "b\<lparr>children := children a\<rparr> = a \<Longrightarrow> c\<lparr>children := children b\<rparr> = b
   \<Longrightarrow> c\<lparr>children := children a\<rparr> = a"
  for a b c :: Node
proof -
  assume ab: "b\<lparr>children := children a\<rparr> = a" and bc: "c\<lparr>children := children b\<rparr> = b"
  have "c\<lparr>children := children a\<rparr> = (c\<lparr>children := children b\<rparr>)\<lparr>children := children a\<rparr>"
    by simp
  also have "\<dots> = b\<lparr>children := children a\<rparr>" by (simp only: bc)
  finally show ?thesis using ab by simp
qed

lemma preserves_trans:
  assumes "preserves K a b" "preserves K b c"
  shows "preserves K a c"
  unfolding preserves_def
proof (intro conjI ballI allI impI)
  show "same_members a c" using assms by (simp add: preserves_def same_members_def)
next
  fix k n assume k: "k \<in> K" and n: "lookup a k = Some n"
  with assms(1) obtain n1 where n1: "lookup b k = Some n1" "n1\<lparr>children := children n\<rparr> = n"
    unfolding preserves_def by blast
  with assms(2) k obtain n2 where n2: "lookup c k = Some n2" "n2\<lparr>children := children n1\<rparr> = n1"
    unfolding preserves_def by blast
  from n1(2) n2(2) have "n2\<lparr>children := children n\<rparr> = n" by (rule children_restore_trans)
  with n2(1) show "\<exists>n'. lookup c k = Some n' \<and> n'\<lparr>children := children n\<rparr> = n" by blast
qed

lemma preserves_bump: "preserves K w w1 \<Longrightarrow> preserves K w (bump_id w1)"
  by (auto simp: preserves_def same_members_def)

lemma preserves_append: "preserves K w w1 \<Longrightarrow> preserves K w (append_node key n w1)"
  by (fastforce simp: preserves_def same_members_def)

lemma preserves_update_other:
  "preserves K w w1 \<Longrightarrow> k \<notin> K \<Longrightarrow> preserves K w (update_node k f w1)"
  by (fastforce simp: preserves_def same_members_def lookup_update_node)

lemma preserves_update_children:
  assumes "preserves K w w1"
  shows "preserves K w (update_node k (\<lambda>a. a\<lparr>children := h a\<rparr>) w1)"
  unfolding preserves_def
proof (intro conjI ballI allI impI)
  show "same_members w (update_node k (\<lambda>a. a\<lparr>children := h a\<rparr>) w1)"
    using assms by (simp add: preserves_def same_members_def)
next
  fix k' n assume "k' \<in> K" "lookup w k' = Some n"
  with assms obtain n1 where n1: "lookup w1 k' = Some n1" "n1\<lparr>children := children n\<rparr> = n"
    unfolding preserves_def by blast
  then show "\<exists>n'. lookup (update_node k (\<lambda>a. a\<lparr>children := h a\<rparr>) w1) k' = Some n'
                 \<and> n'\<lparr>children := children n\<rparr> = n"
    by (auto simp: lookup_update_node)
qed

lemma preserves_dom: "preserves K w w' \<Longrightarrow> K \<subseteq> dom (lookup w) \<Longrightarrow> K \<subseteq> dom (lookup w')"
  unfolding preserves_def by blast

lemma new_node_members [simp]:
  "new_node (bump_id w) = new_node w"
  "new_node (append_node k n w) = new_node w"
  "new_node (update_node k f w) = new_node w"
  by (simp_all add: new_node_def fun_eq_iff)

lemma fix_workflow_id_members [simp]:
  "fix_workflow_id (bump_id w) = fix_workflow_id w"
  "fix_workflow_id (append_node k n w) = fix_workflow_id w"
  "fix_workflow_id (update_node k f w) = fix_workflow_id w"
  by (simp_all add: fix_workflow_id_def fun_eq_iff)

lemma fix_workflow_id_new_node [simp]:
  "fix_workflow_id w (new_node w i t it p q) = new_node w i t it p q"
  "fix_workflow_id w ((new_node w i t it p q)\<lparr>evidence_count_est := v\<rparr>)
     = (new_node w i t it p q)\<lparr>evidence_count_est := v\<rparr>"
  by (simp_all add: fix_workflow_id_def new_node_def)

lemma expand_subquery_result:
  assumes run: "expand_subquery it p e q (w, ex) = Inr (w', ex')"
    and pos: "0 < next_node_id (graph w)"
  shows "lookup w (next_node_id (graph w)) = None \<and> lookup w (Suc (next_node_id (graph w))) = None
       \<and> (lookup w e \<noteq> None \<or> e = next_node_id (graph w) \<or> e = Suc (next_node_id (graph w)))
       \<and> ex' = ex @ [Suc (next_node_id (graph w))]
       \<and> w' = update_node (Suc (next_node_id (graph w)))
                 (\<lambda>b. b\<lparr>deps := deps b @ [next_node_id (graph w)]\<rparr>)
               (update_node (next_node_id (graph w))
                 (\<lambda>a. a\<lparr>children := children a @ [Suc (next_node_id (graph w))]\<rparr>)
               (update_node (next_node_id (graph w)) (\<lambda>b. b\<lparr>deps := deps b @ [e]\<rparr>)
               (update_node e (\<lambda>a. a\<lparr>children := children a @ [next_node_id (graph w)]\<rparr>)
               (update_node (Suc (next_node_id (graph w))) (populate (provider_config w))
               (update_node (next_node_id (graph w)) (populate (provider_config w))
               (append_node (Suc (next_node_id (graph w)))
                  ((new_node w (Suc (next_node_id (graph w))) ExtractEvidence it p q)
                     \<lparr>evidence_count_est :=
                        evidence_estimate (seed (params w)) (wf_id w) it p q\<rparr>)
               (append_node (next_node_id (graph w))
                  (new_node w (next_node_id (graph w)) SimilaritySearch it p q)
               (bump_id (bump_id w)))))))))"
  using run pos
  by (auto simp: expand_subquery_def NewNodeId_eq Let_def AddNode_eq AddEdge_eq Populate_eq
      bindE_eq_Inr lookup_update_node split: if_splits option.splits)

lemma grows_trans:
  "grows K w w1 es1 E1 \<Longrightarrow> grows K w1 w2 es2 E2 \<Longrightarrow> grows K w w2 (es1 @ es2) (E1 \<union> E2)"
  by (auto simp: grows_def intro: preserves_trans)

lemma grows_refl: "grows K w w [] {}"
  by (simp add: grows_def preserves_refl)

lemma dom_lookup_entries: "dom (lookup w) = fst ` set (entries w)"
proof -
  have "fst ` set (entries w) = fst ` set (nodes (graph w))"
    by (force simp: entries_def)
  moreover have "lookup w = map_of (nodes (graph w))"
    by (rule ext) (simp add: lookup_def)
  ultimately show ?thesis by (simp add: dom_map_of_conv_image_fst)
qed

lemma grows_dom: "grows K w w' es E \<Longrightarrow> dom (lookup w') = dom (lookup w) \<union> fst ` set es"
  by (auto simp: grows_def dom_lookup_entries)

lemma grows_pos:
  "grows K w w' es E \<Longrightarrow> 0 < next_node_id (graph w) \<Longrightarrow> 0 < next_node_id (graph w')"
  by (simp add: grows_def)

lemma expand_subquery_grows:
  assumes run: "expand_subquery it p e q (w, ex) = Inr (w', ex')"
    and pos: "0 < next_node_id (graph w)" and K: "K \<subseteq> dom (lookup w)"
  shows "grows K w w' (subquery_entries (seed (params w)) (wf_id w) it p (next_node_id (graph w)) q)
           (subquery_edges e (next_node_id (graph w)))
         \<and> ex' = ex @ [Suc (next_node_id (graph w))]"
proof -
  let ?b = "next_node_id (graph w)"
  note r = expand_subquery_result [OF run pos]
  from r K have notK: "?b \<notin> K" "Suc ?b \<notin> K" by auto
  from r have fresh: "lookup w ?b = None" "lookup w (Suc ?b) = None"
    and e: "lookup w e \<noteq> None \<or> e = ?b \<or> e = Suc ?b" by blast+
  from r have w': "w' = update_node (Suc (next_node_id (graph w)))
                 (\<lambda>b. b\<lparr>deps := deps b @ [next_node_id (graph w)]\<rparr>)
               (update_node (next_node_id (graph w))
                 (\<lambda>a. a\<lparr>children := children a @ [Suc (next_node_id (graph w))]\<rparr>)
               (update_node (next_node_id (graph w)) (\<lambda>b. b\<lparr>deps := deps b @ [e]\<rparr>)
               (update_node e (\<lambda>a. a\<lparr>children := children a @ [next_node_id (graph w)]\<rparr>)
               (update_node (Suc (next_node_id (graph w))) (populate (provider_config w))
               (update_node (next_node_id (graph w)) (populate (provider_config w))
               (append_node (Suc (next_node_id (graph w)))
                  ((new_node w (Suc (next_node_id (graph w))) ExtractEvidence it p q)
                     \<lparr>evidence_count_est :=
                        evidence_estimate (seed (params w)) (wf_id w) it p q\<rparr>)
               (append_node (next_node_id (graph w))
                  (new_node w (next_node_id (graph w)) SimilaritySearch it p q)
               (bump_id (bump_id w)))))))))" by blast
  have 1: "preserves K w w'"
    unfolding w'
    by (intro preserves_update_other preserves_update_children preserves_append preserves_bump
        preserves_refl notK)
  have 2: "entries w' = entries w @ subquery_entries (seed (params w)) (wf_id w) it p ?b q"
    unfolding w' by (simp add: node_kind_def new_node_def Node_init_def subquery_entries_def)
  have 3: "dep_edges w' = dep_edges w \<union> subquery_edges e ?b"
    unfolding w' using fresh e
    by (auto simp: lookup_update_node subquery_edges_def new_node_def Node_init_def)
  have 4: "child_edges w' = child_edges w \<union> subquery_edges e ?b"
    unfolding w' using fresh e
    by (auto simp: lookup_update_node subquery_edges_def new_node_def Node_init_def)
  have 5: "next_node_id (graph w') = ?b + 2"
    unfolding w' by simp
  from 1 2 3 4 5 r show ?thesis by (simp add: grows_def subquery_entries_def)
qed

lemma subquery_loop_grows:
  "foldE (expand_subquery it p e) (map int [0..<n]) (w, ex) = Inr (w', ex') \<Longrightarrow>
   0 < next_node_id (graph w) \<Longrightarrow> K \<subseteq> dom (lookup w) \<Longrightarrow>
   grows K w w'
     (concat (map (\<lambda>j. subquery_entries (seed (params w)) (wf_id w) it p
                           (next_node_id (graph w) + 2 * j) (int j)) [0..<n]))
     (\<Union>j \<in> {..<n}. subquery_edges e (next_node_id (graph w) + 2 * j))
   \<and> ex' = ex @ map (\<lambda>j. Suc (next_node_id (graph w) + 2 * j)) [0..<n]"
proof (induction n arbitrary: w' ex')
  case 0
  then show ?case by (simp add: grows_refl)
next
  case (Suc n)
  let ?b = "next_node_id (graph w)"
  from Suc.prems(1) obtain w1 ex1 where
    l: "foldE (expand_subquery it p e) (map int [0..<n]) (w, ex) = Inr (w1, ex1)"
    and s: "expand_subquery it p e (int n) (w1, ex1) = Inr (w', ex')"
    by (auto simp: foldE_append bindE_eq_Inr)
  from Suc.IH [OF l Suc.prems(2,3)] have
    g1: "grows K w w1
           (concat (map (\<lambda>j. subquery_entries (seed (params w)) (wf_id w) it p (?b + 2 * j) (int j))
                      [0..<n]))
           (\<Union>j \<in> {..<n}. subquery_edges e (?b + 2 * j))"
    and e1: "ex1 = ex @ map (\<lambda>j. Suc (?b + 2 * j)) [0..<n]" by blast+
  have len: "length (concat (map (\<lambda>j. subquery_entries (seed (params w)) (wf_id w) it p (?b + 2 * j) (int j))
                      [0..<n])) = 2 * n"
    by (induction n) (simp_all add: subquery_entries_def)
  from g1 len have n1: "next_node_id (graph w1) = ?b + 2 * n"
    and m1: "seed (params w1) = seed (params w)" "wf_id w1 = wf_id w"
    by (simp_all add: grows_def preserves_def same_members_def)
  from g1 Suc.prems(2) have pos1: "0 < next_node_id (graph w1)" by (rule grows_pos)
  from g1 Suc.prems(3) have K1: "K \<subseteq> dom (lookup w1)" by (auto simp: grows_dom)
  from expand_subquery_grows [OF s pos1 K1] n1 m1 have
    g2: "grows K w1 w' (subquery_entries (seed (params w)) (wf_id w) it p (?b + 2 * n) (int n))
           (subquery_edges e (?b + 2 * n))"
    and e2: "ex' = ex1 @ [Suc (?b + 2 * n)]" by simp_all
  from grows_trans [OF g1 g2] e1 e2 show ?case
    by (simp add: lessThan_Suc Un_commute)
qed

lemma expand_pdf_result:
  assumes run: "expand_pdf plan it p (w, ex) = Inr (w', ex')"
    and pos: "0 < next_node_id (graph w)"
  shows "lookup w (next_node_id (graph w)) = None
       \<and> lookup w (next_node_id (graph w) + 1) = None
       \<and> lookup w (next_node_id (graph w) + 2) = None
       \<and> (lookup w plan \<noteq> None \<or> plan = next_node_id (graph w)
           \<or> plan = next_node_id (graph w) + 1 \<or> plan = next_node_id (graph w) + 2)
       \<and> foldE (expand_subquery it p (next_node_id (graph w) + 2))
            (map int [0..<nat (subqueries_per_iter (params w))]) (pdf_chain plan it p w, ex)
          = Inr (w', ex')"
  using run pos
  by (auto simp: expand_pdf_def pdf_chain_def NewNodeId_eq Let_def AddNode_eq AddEdge_eq
      Populate_eq bindE_eq_Inr lookup_update_node split: if_splits option.splits)

lemma pdf_chain_grows:
  assumes fresh: "lookup w (next_node_id (graph w)) = None"
      "lookup w (next_node_id (graph w) + 1) = None"
      "lookup w (next_node_id (graph w) + 2) = None"
    and plan: "lookup w plan \<noteq> None \<or> plan = next_node_id (graph w)
           \<or> plan = next_node_id (graph w) + 1 \<or> plan = next_node_id (graph w) + 2"
    and K: "K \<subseteq> dom (lookup w)"
  shows "grows K w (pdf_chain plan it p w)
           [(next_node_id (graph w), (LoadPDF, it, p, - 1), 0),
            (next_node_id (graph w) + 1, (Chunk, it, p, - 1), 0),
            (next_node_id (graph w) + 2, (Embed, it, p, - 1), 0)]
           {(plan, next_node_id (graph w)),
            (next_node_id (graph w), next_node_id (graph w) + 1),
            (next_node_id (graph w) + 1, next_node_id (graph w) + 2)}"
proof -
  let ?b = "next_node_id (graph w)"
  from fresh K have notK: "?b \<notin> K" "?b + 1 \<notin> K" "?b + 2 \<notin> K" by auto
  have 1: "preserves K w (pdf_chain plan it p w)"
    unfolding pdf_chain_def Let_def
    by (intro preserves_update_other preserves_update_children preserves_append preserves_bump
        preserves_refl notK)
  have 2: "entries (pdf_chain plan it p w) = entries w @
           [(?b, (LoadPDF, it, p, - 1), 0), (?b + 1, (Chunk, it, p, - 1), 0),
            (?b + 2, (Embed, it, p, - 1), 0)]"
    unfolding pdf_chain_def Let_def by simp
  have 3: "dep_edges (pdf_chain plan it p w) = dep_edges w \<union>
           {(plan, ?b), (?b, ?b + 1), (?b + 1, ?b + 2)}"
    unfolding pdf_chain_def Let_def using fresh plan
    by (auto simp: lookup_update_node)
  have 4: "child_edges (pdf_chain plan it p w) = child_edges w \<union>
           {(plan, ?b), (?b, ?b + 1), (?b + 1, ?b + 2)}"
    unfolding pdf_chain_def Let_def using fresh plan
    by (auto simp: lookup_update_node)
  have 5: "next_node_id (graph (pdf_chain plan it p w)) = ?b + 3"
    unfolding pdf_chain_def Let_def by simp
  from 1 2 3 4 5 show ?thesis by (simp add: grows_def)
qed

lemma grows_members:
  "grows K w w' es E \<Longrightarrow> params w' = params w \<and> wf_id w' = wf_id w
     \<and> provider_config w' = provider_config w"
  by (simp add: grows_def preserves_def same_members_def)

lemma grows_keeps: "grows K w w' es E \<Longrightarrow> K \<subseteq> dom (lookup w) \<Longrightarrow> K \<subseteq> dom (lookup w')"
  by (auto simp: grows_dom)

lemma length_pdf_entries: "length (pdf_entries sd wid it K l p) = 3 + 2 * K"
proof -
  have "length (concat (map (\<lambda>j. subquery_entries sd wid it p (l + 3 + 2 * j) (int j)) [0..<K]))
        = 2 * K"
    by (induction K) (simp_all add: subquery_entries_def)
  then show ?thesis by (simp add: pdf_entries_def)
qed

lemma expand_pdf_grows:
  assumes run: "expand_pdf plan it p (w, ex) = Inr (w', ex')"
    and pos: "0 < next_node_id (graph w)" and K: "K \<subseteq> dom (lookup w)"
  shows "grows K w w'
           (pdf_entries (seed (params w)) (wf_id w) it (nat (subqueries_per_iter (params w)))
              (next_node_id (graph w)) p)
           (pdf_edges plan (nat (subqueries_per_iter (params w))) (next_node_id (graph w)))
         \<and> ex' = ex @ pdf_extracts (nat (subqueries_per_iter (params w))) (next_node_id (graph w))"
proof -
  let ?b = "next_node_id (graph w)"
  let ?K = "nat (subqueries_per_iter (params w))"
  note r = expand_pdf_result [OF run pos]
  from r have fresh: "lookup w ?b = None" "lookup w (?b + 1) = None" "lookup w (?b + 2) = None"
    and plan: "lookup w plan \<noteq> None \<or> plan = ?b \<or> plan = ?b + 1 \<or> plan = ?b + 2"
    and loop: "foldE (expand_subquery it p (?b + 2)) (map int [0..<?K])
                 (pdf_chain plan it p w, ex) = Inr (w', ex')"
    by blast+
  note g1 = pdf_chain_grows [OF fresh plan K, of it p]
  from g1 pos have pos1: "0 < next_node_id (graph (pdf_chain plan it p w))" by (rule grows_pos)
  from g1 K have K1: "K \<subseteq> dom (lookup (pdf_chain plan it p w))" by (rule grows_keeps)
  from g1 have n1: "next_node_id (graph (pdf_chain plan it p w)) = ?b + 3"
    by (simp add: grows_def)
  from grows_members [OF g1] have m1: "seed (params (pdf_chain plan it p w)) = seed (params w)"
    "wf_id (pdf_chain plan it p w) = wf_id w" by simp_all
  from subquery_loop_grows [OF loop pos1 K1] n1 m1 have
    g2: "grows K (pdf_chain plan it p w) w'
           (concat (map (\<lambda>j. subquery_entries (seed (params w)) (wf_id w) it p
                                 (?b + 3 + 2 * j) (int j)) [0..<?K]))
           (\<Union>j \<in> {..<?K}. subquery_edges (?b + 2) (?b + 3 + 2 * j))"
    and e2: "ex' = ex @ map (\<lambda>j. Suc (?b + 3 + 2 * j)) [0..<?K]" by simp_all
  from grows_trans [OF g1 g2] e2 show ?thesis
    by (simp add: pdf_entries_def pdf_edges_def pdf_extracts_def)
qed

lemma pdf_loop_grows:
  "foldE (expand_pdf plan it) (map int [0..<n]) (w, ex) = Inr (w', ex') \<Longrightarrow>
   0 < next_node_id (graph w) \<Longrightarrow> K \<subseteq> dom (lookup w) \<Longrightarrow>
   grows K w w'
     (concat (map (\<lambda>i. pdf_entries (seed (params w)) (wf_id w) it
                           (nat (subqueries_per_iter (params w)))
                           (next_node_id (graph w)
                              + i * (3 + 2 * nat (subqueries_per_iter (params w)))) (int i))
                [0..<n]))
     (\<Union>i \<in> {..<n}. pdf_edges plan (nat (subqueries_per_iter (params w)))
                        (next_node_id (graph w)
                           + i * (3 + 2 * nat (subqueries_per_iter (params w)))))
   \<and> ex' = ex @ iteration_extracts n (nat (subqueries_per_iter (params w)))
                  (next_node_id (graph w))"
proof (induction n arbitrary: w' ex')
  case 0
  then show ?case by (simp add: grows_refl iteration_extracts_def)
next
  case (Suc n)
  let ?b = "next_node_id (graph w)"
  let ?K = "nat (subqueries_per_iter (params w))"
  let ?es = "concat (map (\<lambda>i. pdf_entries (seed (params w)) (wf_id w) it ?K
                                 (?b + i * (3 + 2 * ?K)) (int i)) [0..<n])"
  from Suc.prems(1) obtain w1 ex1 where
    l: "foldE (expand_pdf plan it) (map int [0..<n]) (w, ex) = Inr (w1, ex1)"
    and s: "expand_pdf plan it (int n) (w1, ex1) = Inr (w', ex')"
    by (auto simp: foldE_append bindE_eq_Inr)
  from Suc.IH [OF l Suc.prems(2,3)] have
    g1: "grows K w w1 ?es (\<Union>i \<in> {..<n}. pdf_edges plan ?K (?b + i * (3 + 2 * ?K)))"
    and e1: "ex1 = ex @ iteration_extracts n ?K ?b" by blast+
  have len: "length ?es = n * (3 + 2 * ?K)"
    by (induction n) (simp_all add: length_pdf_entries)
  from g1 len have n1: "next_node_id (graph w1) = ?b + n * (3 + 2 * ?K)"
    by (simp add: grows_def)
  from grows_members [OF g1] have m1: "params w1 = params w" "wf_id w1 = wf_id w" by simp_all
  from g1 Suc.prems(2) have pos1: "0 < next_node_id (graph w1)" by (rule grows_pos)
  from g1 Suc.prems(3) have K1: "K \<subseteq> dom (lookup w1)" by (rule grows_keeps)
  from expand_pdf_grows [OF s pos1 K1] n1 m1 have
    g2: "grows K w1 w' (pdf_entries (seed (params w)) (wf_id w) it ?K (?b + n * (3 + 2 * ?K)) (int n))
           (pdf_edges plan ?K (?b + n * (3 + 2 * ?K)))"
    and e2: "ex' = ex1 @ pdf_extracts ?K (?b + n * (3 + 2 * ?K))" by simp_all
  from grows_trans [OF g1 g2] e1 e2 show ?case
    by (simp add: lessThan_Suc Un_commute iteration_extracts_def)
qed

lemma AddEdge_grows:
  assumes "AddEdge f t w = Inr w'" "t \<notin> K"
  shows "grows K w w' [] {(f, t)}"
proof -
  from assms(1) have ex: "lookup w f \<noteq> None" "lookup w t \<noteq> None"
    and w': "w' = update_node t (\<lambda>b. b\<lparr>deps := deps b @ [f]\<rparr>)
                    (update_node f (\<lambda>a. a\<lparr>children := children a @ [t]\<rparr>) w)"
    by (auto simp: AddEdge_eq split: if_splits)
  have "preserves K w w'"
    unfolding w' by (intro preserves_update_other preserves_update_children preserves_refl assms(2))
  moreover have "dep_edges w' = dep_edges w \<union> {(f, t)}"
    unfolding w' using ex by (auto simp: lookup_update_node)
  moreover have "child_edges w' = child_edges w \<union> {(f, t)}"
    unfolding w' using ex by (auto simp: lookup_update_node)
  ultimately show ?thesis unfolding w' by (simp add: grows_def)
qed

lemma Initialize_grows:
  assumes "InitializeStateFromDeps nid w = Inr w'" "nid \<notin> K"
  shows "grows K w w' [] {}"
proof -
  from Initialize_eq [OF assms(1)] obtain s where
    w': "w' = update_node nid (\<lambda>n. n\<lparr>state := s n\<rparr>) w" by blast
  have "preserves K w w'"
    unfolding w' by (intro preserves_update_other preserves_refl assms(2))
  then show ?thesis unfolding w' by (simp add: grows_def)
qed

lemma AddEdge_fold_grows:
  "foldE (\<lambda>x. AddEdge x a) xs w = Inr w' \<Longrightarrow> a \<notin> K \<Longrightarrow>
   grows K w w' [] {(x, a) | x. x \<in> set xs}"
proof (induction xs arbitrary: w)
  case Nil
  then show ?case by (simp add: grows_refl)
next
  case (Cons x xs)
  from Cons.prems(1) obtain w1 where
    s: "AddEdge x a w = Inr w1" and r: "foldE (\<lambda>x. AddEdge x a) xs w1 = Inr w'"
    by (auto simp: bindE_eq_Inr)
  from grows_trans [OF AddEdge_grows [OF s Cons.prems(2)] Cons.IH [OF r Cons.prems(2)]]
  have "grows K w w' [] ({(x, a)} \<union> {(x, a) | x. x \<in> set xs})" by simp
  moreover have "{(x, a)} \<union> {(x, a) | x. x \<in> set xs} = {(y, a) | y. y \<in> set (x # xs)}"
    by auto
  ultimately show ?case by simp
qed

lemma aggregate_decide_grows:
  assumes fresh: "lookup w (next_node_id (graph w)) = None"
      "lookup w (next_node_id (graph w) + 1) = None"
    and K: "K \<subseteq> dom (lookup w)"
  shows "grows K w (aggregate_decide it w)
           [(next_node_id (graph w), (Aggregate, it, - 1, - 1), 0),
            (next_node_id (graph w) + 1, (DecideNext, it, - 1, - 1), 0)] {}"
proof -
  let ?a = "next_node_id (graph w)"
  from fresh K have notK: "?a \<notin> K" "?a + 1 \<notin> K" by auto
  have 1: "preserves K w (aggregate_decide it w)"
    unfolding aggregate_decide_def Let_def
    by (intro preserves_update_other preserves_update_children preserves_append preserves_bump
        preserves_refl notK)
  show ?thesis
    using 1 unfolding grows_def aggregate_decide_def Let_def by simp
qed

lemma Expand_result:
  assumes run: "ExpandIterationFromPlan plan w = Inr w'"
    and pl: "lookup w plan = Some pl" "iter pl < max_iters (params w)"
    and guard: "\<not> (\<exists>(k, n) \<in> set (nodes (graph w)). ntype n = Aggregate \<and> iter n = iter pl)"
    and pos: "0 < next_node_id (graph w)"
  shows "\<exists>w1 ex w8 w9 w10.
           foldE (expand_pdf plan (iter pl)) (map int [0..<nat (pdfs (params w))]) (w, [])
             = Inr (w1, ex)
         \<and> lookup w1 (next_node_id (graph w1)) = None
         \<and> lookup w1 (next_node_id (graph w1) + 1) = None
         \<and> (if ex \<noteq> []
             then foldE (\<lambda>x. AddEdge x (next_node_id (graph w1))) ex
                    (aggregate_decide (iter pl) w1) = Inr w8
             else AddEdge plan (next_node_id (graph w1)) (aggregate_decide (iter pl) w1) = Inr w8)
         \<and> AddEdge (next_node_id (graph w1)) (next_node_id (graph w1) + 1) w8 = Inr w9
         \<and> InitializeStateFromDeps (next_node_id (graph w1)) w9 = Inr w10
         \<and> InitializeStateFromDeps (next_node_id (graph w1) + 1) w10 = Inr w'"
proof -
  from run pl guard obtain w1 ex where
    loop: "foldE (expand_pdf plan (iter pl)) (map int [0..<nat (pdfs (params w))]) (w, [])
             = Inr (w1, ex)"
    by (auto simp: ExpandIterationFromPlan_def Let_def bindE_eq_Inr node_def)
  from pdf_loop_grows [OF loop pos subset_refl] pos have pos1: "0 < next_node_id (graph w1)"
    by (auto dest: grows_pos)
  from run pl guard loop pos1 show ?thesis
    by (auto simp: ExpandIterationFromPlan_def aggregate_decide_def NewNodeId_eq Let_def
        AddNode_eq Populate_eq bindE_eq_Inr node_def split: if_splits option.splits)
qed

lemma length_pdf_loop_entries:
  "length (concat (map (\<lambda>i. pdf_entries sd wid it K (b + i * (3 + 2 * K)) (int i)) [0..<n]))
     = n * (3 + 2 * K)"
  by (induction n) (simp_all add: length_pdf_entries)

lemma Expand_grows:
  assumes run: "ExpandIterationFromPlan plan w = Inr w'"
    and pl: "lookup w plan = Some pl" "iter pl < max_iters (params w)"
    and guard: "\<not> (\<exists>(k, n) \<in> set (nodes (graph w)). ntype n = Aggregate \<and> iter n = iter pl)"
    and pos: "0 < next_node_id (graph w)" and K: "K \<subseteq> dom (lookup w)"
  shows "grows K w w'
           (iteration_entries (seed (params w)) (wf_id w) (iter pl) (nat (pdfs (params w)))
              (nat (subqueries_per_iter (params w))) (next_node_id (graph w)))
           (iteration_edges plan (nat (pdfs (params w)))
              (nat (subqueries_per_iter (params w))) (next_node_id (graph w)))"
proof -
  let ?b = "next_node_id (graph w)"
  let ?P = "nat (pdfs (params w))"
  let ?K = "nat (subqueries_per_iter (params w))"
  let ?a = "?b + ?P * (3 + 2 * ?K)"
  let ?es = "concat (map (\<lambda>i. pdf_entries (seed (params w)) (wf_id w) (iter pl) ?K
                                 (?b + i * (3 + 2 * ?K)) (int i)) [0..<?P])"
  from Expand_result [OF run pl guard pos] obtain w1 ex w8 w9 w10 where
    loop: "foldE (expand_pdf plan (iter pl)) (map int [0..<?P]) (w, []) = Inr (w1, ex)"
    and fresh: "lookup w1 (next_node_id (graph w1)) = None"
      "lookup w1 (next_node_id (graph w1) + 1) = None"
    and e8: "if ex \<noteq> []
             then foldE (\<lambda>x. AddEdge x (next_node_id (graph w1))) ex
                    (aggregate_decide (iter pl) w1) = Inr w8
             else AddEdge plan (next_node_id (graph w1)) (aggregate_decide (iter pl) w1) = Inr w8"
    and e9: "AddEdge (next_node_id (graph w1)) (next_node_id (graph w1) + 1) w8 = Inr w9"
    and i10: "InitializeStateFromDeps (next_node_id (graph w1)) w9 = Inr w10"
    and i11: "InitializeStateFromDeps (next_node_id (graph w1) + 1) w10 = Inr w'"
    by blast
  from pdf_loop_grows [OF loop pos K] have
    g1: "grows K w w1 ?es (\<Union>i \<in> {..<?P}. pdf_edges plan ?K (?b + i * (3 + 2 * ?K)))"
    and ex: "ex = iteration_extracts ?P ?K ?b" by simp_all
  from g1 have n1: "next_node_id (graph w1) = ?a"
    by (simp add: grows_def length_pdf_loop_entries)
  from g1 K have K1: "K \<subseteq> dom (lookup w1)" by (rule grows_keeps)
  from fresh K1 n1 have notK: "?a \<notin> K" "?a + 1 \<notin> K" by auto
  from aggregate_decide_grows [OF fresh K1, of "iter pl"] n1 have
    g2: "grows K w1 (aggregate_decide (iter pl) w1)
           [(?a, (Aggregate, iter pl, - 1, - 1), 0), (?a + 1, (DecideNext, iter pl, - 1, - 1), 0)] {}"
    by simp
  have g3: "grows K (aggregate_decide (iter pl) w1) w8 []
              (if iteration_extracts ?P ?K ?b = [] then {(plan, ?a)}
               else {(x, ?a) | x. x \<in> set (iteration_extracts ?P ?K ?b)})"
  proof (cases "ex = []")
    case True
    with e8 n1 have "AddEdge plan ?a (aggregate_decide (iter pl) w1) = Inr w8" by simp
    from AddEdge_grows [OF this notK(1)] True ex show ?thesis by simp
  next
    case False
    with e8 n1 have "foldE (\<lambda>x. AddEdge x ?a) ex (aggregate_decide (iter pl) w1) = Inr w8"
      by simp
    from AddEdge_fold_grows [OF this notK(1)] False ex show ?thesis by simp
  qed
  from e9 n1 have "AddEdge ?a (?a + 1) w8 = Inr w9" by simp
  from AddEdge_grows [OF this notK(2)] have g4: "grows K w8 w9 [] {(?a, ?a + 1)}" .
  from i10 n1 have "InitializeStateFromDeps ?a w9 = Inr w10" by simp
  from Initialize_grows [OF this notK(1)] have g5: "grows K w9 w10 [] {}" .
  from i11 n1 have "InitializeStateFromDeps (?a + 1) w10 = Inr w'" by simp
  from Initialize_grows [OF this notK(2)] have g6: "grows K w10 w' [] {}" .
  from grows_trans [OF grows_trans [OF grows_trans [OF grows_trans [OF grows_trans
      [OF g1 g2] g3] g4] g5] g6]
  show ?thesis
    by (simp add: iteration_entries_def iteration_edges_def Un_assoc)
qed

lemma OnDecideNext_Stop:
  assumes "OnDecideNext d w = Inr w'" "lookup w d = Some dn"
    "ComputeDecideAction w (iter dn) = Stop"
  shows "PruneAfterStop (iter dn) (w\<lparr>wf_done := True, stop_iter := Some (iter dn)\<rparr>) = Inr w'"
  using assms by (simp add: OnDecideNext_def node_def Let_def)

lemma OnDecideNext_Continue:
  assumes run: "OnDecideNext d w = Inr w'" and dn: "lookup w d = Some dn"
    and act: "ComputeDecideAction w (iter dn) \<noteq> Stop"
    and pos: "0 < next_node_id (graph w)"
  shows "lookup w (next_node_id (graph w)) = None
       \<and> (\<exists>s. w' = update_node (next_node_id (graph w)) (\<lambda>n. n\<lparr>state := s n\<rparr>)
                 (update_node (next_node_id (graph w)) (\<lambda>b. b\<lparr>deps := deps b @ [d]\<rparr>)
                 (update_node d (\<lambda>a. a\<lparr>children := children a @ [next_node_id (graph w)]\<rparr>)
                 (update_node (next_node_id (graph w)) (populate (provider_config w))
                 (append_node (next_node_id (graph w)) (next_plan w (iter dn))
                 (bump_id w))))))"
proof -
  let ?b = "next_node_id (graph w)"
  have fx: "fix_workflow_id w (next_plan w (iter dn)) = next_plan w (iter dn)"
    by (simp add: fix_workflow_id_def next_plan_def)
  have nid: "node_id (next_plan w (iter dn)) = ?b"
    by (simp add: next_plan_def)
  have np: "Node_init\<lparr>node_id := ?b, workflow_id := wf_id w, ntype := Plan,
       resource_class := llm, idempotent := True, iter := wrap_int32 (iter dn + 1),
       output_size_est :=
         size_t_of_int
           (wrap_int32 (220 + 15 * subqueries_per_iter (params w) + 4 * pdfs (params w)))\<rparr>
       = next_plan w (iter dn)" by (simp add: next_plan_def)
  from run dn act pos obtain w3 where
    fresh: "lookup w ?b = None"
    and w3: "w3 = update_node ?b (\<lambda>b. b\<lparr>deps := deps b @ [d]\<rparr>)
                 (update_node d (\<lambda>a. a\<lparr>children := children a @ [?b]\<rparr>)
                 (update_node ?b (populate (provider_config w))
                 (append_node ?b (next_plan w (iter dn)) (bump_id w))))"
    and i: "InitializeStateFromDeps ?b w3 = Inr w'"
    by (auto simp: OnDecideNext_def node_def Let_def NewNodeId_eq np AddNode_eq nid fx
        AddEdge_eq Populate_eq bindE_eq_Inr split: if_splits)
  from Initialize_eq [OF i] w3 fresh show ?thesis by blast
qed

lemma OnDecideNext_grows:
  assumes run: "OnDecideNext d w = Inr w'" and dn: "lookup w d = Some dn"
    and act: "ComputeDecideAction w (iter dn) \<noteq> Stop"
    and pos: "0 < next_node_id (graph w)" and K: "K \<subseteq> dom (lookup w)"
  shows "grows K w w' [(next_node_id (graph w), (Plan, wrap_int32 (iter dn + 1), - 1, - 1), 0)]
           {(d, next_node_id (graph w))}"
proof -
  let ?b = "next_node_id (graph w)"
  from OnDecideNext_Continue [OF run dn act pos] obtain s where
    fresh: "lookup w ?b = None"
    and w': "w' = update_node ?b (\<lambda>n. n\<lparr>state := s n\<rparr>)
                 (update_node ?b (\<lambda>b. b\<lparr>deps := deps b @ [d]\<rparr>)
                 (update_node d (\<lambda>a. a\<lparr>children := children a @ [?b]\<rparr>)
                 (update_node ?b (populate (provider_config w))
                 (append_node ?b (next_plan w (iter dn)) (bump_id w)))))" by blast
  from fresh K have notK: "?b \<notin> K" by auto
  have 1: "preserves K w w'"
    unfolding w'
    by (intro preserves_update_other preserves_update_children preserves_append preserves_bump
        preserves_refl notK)
  have 2: "entries w' = entries w @ [(?b, (Plan, wrap_int32 (iter dn + 1), - 1, - 1), 0)]"
    unfolding w' by (simp add: next_plan_def node_kind_def Node_init_def)
  have 3: "dep_edges w' = dep_edges w \<union> {(d, ?b)}"
    unfolding w' using fresh dn by (auto simp: lookup_update_node next_plan_def Node_init_def)
  have 4: "child_edges w' = child_edges w \<union> {(d, ?b)}"
    unfolding w' using fresh dn by (auto simp: lookup_update_node next_plan_def Node_init_def)
  have 5: "next_node_id (graph w') = ?b + 1" unfolding w' by simp
  from 1 2 3 4 5 show ?thesis by (simp add: grows_def)
qed

section \<open>The state machine\<close>

lemma background_state_only: "state n2 = state n \<Longrightarrow> background n2 s = background n s"
  by (simp add: background_def refreshable_def)

lemma evolves_refl: "evolves R w w"
  by (simp add: evolves_def)

lemma restore_trans:
  fixes a b c :: Node
  assumes "b\<lparr>children := children a, state := state a\<rparr> = a"
    "c\<lparr>children := children b, state := state b\<rparr> = b"
  shows "c\<lparr>children := children a, state := state a\<rparr> = a"
proof -
  have "c\<lparr>children := children a, state := state a\<rparr>
        = (c\<lparr>children := children b, state := state b\<rparr>)\<lparr>children := children a, state := state a\<rparr>"
    by simp
  also have "\<dots> = b\<lparr>children := children a, state := state a\<rparr>" by (simp only: assms(2))
  finally show ?thesis using assms(1) by simp
qed

lemma evolves_trans:
  assumes "evolves background w1 w2" "evolves background w2 w3"
  shows "evolves background w1 w3"
  unfolding evolves_def
proof (intro conjI allI impI)
  fix k n assume n: "lookup w1 k = Some n"
  with assms(1) obtain n2 where n2: "lookup w2 k = Some n2"
    "n2\<lparr>children := children n, state := state n\<rparr> = n"
    "state n2 = state n \<or> background n (state n2)"
    unfolding evolves_def by blast
  with assms(2) obtain n3 where n3: "lookup w3 k = Some n3"
    "n3\<lparr>children := children n2, state := state n2\<rparr> = n2"
    "state n3 = state n2 \<or> background n2 (state n3)"
    unfolding evolves_def by blast
  have r: "n3\<lparr>children := children n, state := state n\<rparr> = n"
    using n2(2) n3(2) by (rule restore_trans)
  have "state n3 = state n \<or> background n (state n3)"
    using n2(3) n3(3)
    by (auto simp: background_def refreshable_def IsTerminal_def)
  with n3(1) r show "\<exists>n'. lookup w3 k = Some n'
       \<and> n'\<lparr>children := children n, state := state n\<rparr> = n
       \<and> (state n' = state n \<or> background n (state n'))" by blast
qed (use assms in \<open>auto simp: evolves_def\<close>)

lemma restated_evolves:
  assumes "restated R w w'" "\<And>n s. R n s \<Longrightarrow> background n s"
  shows "evolves background w w'"
  unfolding evolves_def
proof (intro conjI allI impI)
  fix k n assume n: "lookup w k = Some n"
  with assms(1) obtain n' where n': "lookup w' k = Some n'" "n'\<lparr>state := state n\<rparr> = n"
    "state n' = state n \<or> R n (state n')"
    unfolding restated_def by blast
  from n'(2) have "children n' = children n"
    by (metis Node.select_convs(11) Node.surjective Node.update_convs(6))
  with n'(2) have "n'\<lparr>children := children n, state := state n\<rparr> = n"
    by (metis Node.surjective Node.update_convs(11) Node.update_convs(6))
  with n' assms(2) show "\<exists>n'. lookup w' k = Some n'
       \<and> n'\<lparr>children := children n, state := state n\<rparr> = n
       \<and> (state n' = state n \<or> background n (state n'))" by blast
qed (use assms(1) in \<open>auto simp: restated_def same_frame_def\<close>)

lemma grows_evolves:
  assumes "grows (dom (lookup w)) w w' es E"
  shows "evolves R w w'"
  unfolding evolves_def
proof (intro conjI allI impI)
  fix k n assume n: "lookup w k = Some n"
  with assms obtain n' where n': "lookup w' k = Some n'" "n'\<lparr>children := children n\<rparr> = n"
    unfolding grows_def preserves_def by blast
  from n'(2) have "state n' = state n"
    by (metis Node.select_convs(6) Node.surjective Node.update_convs(11))
  with n' show "\<exists>n'. lookup w' k = Some n'
       \<and> n'\<lparr>children := children n, state := state n\<rparr> = n
       \<and> (state n' = state n \<or> R n (state n'))"
    by (metis Node.surjective Node.update_convs(6) Node.update_convs(11))
qed (use assms in \<open>auto simp: grows_def preserves_def same_members_def\<close>)

lemma prune_fold_restated:
  "restated (\<lambda>n s. \<not> IsTerminal (state n) \<and> s = Cancelled) w
     (fold (PruneAfterStop_body stop) ks w)"
  unfolding restated_def
proof (intro conjI allI impI)
  show "same_frame w (fold (PruneAfterStop_body stop) ks w)" by (rule prune_fold_frame)
next
  fix k assume "lookup w k = None"
  then show "lookup (fold (PruneAfterStop_body stop) ks w) k = None"
    by (simp add: lookup_prune_fold)
next
  fix k n assume "lookup w k = Some n"
  then show "\<exists>n'. lookup (fold (PruneAfterStop_body stop) ks w) k = Some n'
      \<and> n'\<lparr>state := state n\<rparr> = n
      \<and> (state n' = state n \<or> \<not> IsTerminal (state n) \<and> state n' = Cancelled)"
    by (simp add: lookup_prune_fold)
qed

lemma PruneAfterStop_result:
  assumes "PruneAfterStop stop w = Inr w'"
  shows "\<exists>nl. RefreshRunnable (fold (PruneAfterStop_body stop) (map fst (nodes (graph w))) w)
           = Inr (nl, w')"
  using assms by (auto simp: PruneAfterStop_def bindE_eq_Inr)

lemma PruneAfterStop_evolves:
  assumes "PruneAfterStop stop w = Inr w'"
  shows "evolves background w w'"
proof -
  from PruneAfterStop_result [OF assms] obtain nl where
    r: "RefreshRunnable (fold (PruneAfterStop_body stop) (map fst (nodes (graph w))) w)
           = Inr (nl, w')" by blast
  have "evolves background w (fold (PruneAfterStop_body stop) (map fst (nodes (graph w))) w)"
    using prune_fold_restated by (rule restated_evolves) (simp add: background_def)
  moreover have "evolves background
      (fold (PruneAfterStop_body stop) (map fst (nodes (graph w))) w) w'"
    using RefreshRunnable_restated [OF r] by (rule restated_evolves) (simp add: background_def)
  ultimately show ?thesis by (rule evolves_trans)
qed


lemma Expand_evolves:
  assumes run: "ExpandIterationFromPlan plan w = Inr w'" and pos: "0 < next_node_id (graph w)"
  shows "evolves R w w'"
proof -
  from run obtain pl where pl: "lookup w plan = Some pl"
    by (auto simp: ExpandIterationFromPlan_def bindE_eq_Inr)
  show ?thesis
  proof (cases "iter pl < max_iters (params w)
      \<and> \<not> (\<exists>(k, n) \<in> set (nodes (graph w)). ntype n = Aggregate \<and> iter n = iter pl)")
    case True
    then have a: "iter pl < max_iters (params w)"
      and b: "\<not> (\<exists>(k, n) \<in> set (nodes (graph w)). ntype n = Aggregate \<and> iter n = iter pl)"
      by blast+
    from Expand_grows [OF run pl a b pos subset_refl] show ?thesis by (rule grows_evolves)
  next
    case False
    with run pl have "w' = w"
      by (auto simp: ExpandIterationFromPlan_def node_def Let_def split: if_splits)
    then show ?thesis by (simp add: evolves_refl)
  qed
qed

lemma evolves_done:
  "evolves R (w\<lparr>wf_done := True, stop_iter := x\<rparr>) w' \<Longrightarrow> evolves R w w'"
  by (simp add: evolves_def lookup_def)

lemma OnDecideNext_evolves:
  assumes run: "OnDecideNext d w = Inr w'" and pos: "0 < next_node_id (graph w)"
  shows "evolves background w w'"
proof -
  from run obtain dn where dn: "lookup w d = Some dn"
    by (auto simp: OnDecideNext_def bindE_eq_Inr)
  show ?thesis
  proof (cases "ComputeDecideAction w (iter dn) = Stop")
    case True
    from OnDecideNext_Stop [OF run dn True] have "evolves background
        (w\<lparr>wf_done := True, stop_iter := Some (iter dn)\<rparr>) w'"
      by (rule PruneAfterStop_evolves)
    then show ?thesis by (rule evolves_done)
  next
    case False
    from OnDecideNext_grows [OF run dn False pos subset_refl] show ?thesis
      by (rule grows_evolves)
  qed
qed

lemma SetState_result:
  assumes "SetState nid nxt w = Inr w'"
  obtains (same) n where "lookup w nid = Some n" "state n = nxt" "w' = w"
  | (moved) n where "lookup w nid = Some n" "state n \<noteq> nxt" "\<not> IsTerminal (state n)"
      "target_ok (state n) nxt" "nxt = Runnable \<longrightarrow> DepsSatisfied w n = Inr True"
      "w' = update_node nid (\<lambda>n. n\<lparr>state := nxt\<rparr>) w"
proof -
  from assms obtain n where n: "lookup w nid = Some n"
    by (auto simp: SetState_def bindE_eq_Inr)
  show ?thesis
  proof (cases "state n = nxt")
    case True
    with assms n have "w' = w" by (simp add: SetState_def node_def)
    with n True show ?thesis by (rule same)
  next
    case False
    with assms n have t: "\<not> IsTerminal (state n)"
      by (auto simp: SetState_def node_def require_def bindE_eq_Inr split: if_splits)
    from assms n False t have ok: "target_ok (state n) nxt"
      and r: "nxt = Runnable \<longrightarrow> DepsSatisfied w n = Inr True"
      and w': "w' = update_node nid (\<lambda>n. n\<lparr>state := nxt\<rparr>) w"
      by (cases nxt; (auto simp: SetState_def node_def require_def bindE_eq_Inr target_ok_def
          split: if_splits)[1])+
    from n False t ok r w' show ?thesis by (rule moved)
  qed
qed

lemma background_legal: "background n s \<Longrightarrow> legal_transition (state n) s"
  by (cases s) (auto simp: background_def refreshable_def legal_transition_def target_ok_def
      IsTerminal_def)

lemma evolves_mono: "evolves R w w' \<Longrightarrow> (\<And>n s. R n s \<Longrightarrow> R' n s) \<Longrightarrow> evolves R' w w'"
  unfolding evolves_def by blast

lemma evolves_advances: "evolves background w w' \<Longrightarrow> advances w w'"
  unfolding advances_def by (erule evolves_mono) (rule background_legal)

lemma advances_refl: "advances w w"
  by (simp add: advances_def evolves_refl)

text \<open>a move of one node to a terminal state, followed by background changes\<close>

lemma terminal_then_background:
  assumes n: "lookup w nid = Some n" and t: "\<not> IsTerminal (state n)"
    and ok: "target_ok (state n) nxt" and trm: "IsTerminal nxt"
    and ev: "evolves background (update_node nid (\<lambda>n. n\<lparr>state := nxt\<rparr>) w) w'"
  shows "advances w w'"
  unfolding advances_def evolves_def
proof (intro conjI allI impI)
  let ?w1 = "update_node nid (\<lambda>n. n\<lparr>state := nxt\<rparr>) w"
  fix k m assume m: "lookup w k = Some m"
  show "\<exists>n'. lookup w' k = Some n' \<and> n'\<lparr>children := children m, state := state m\<rparr> = m
      \<and> (state n' = state m \<or> legal_transition (state m) (state n'))"
  proof (cases "k = nid")
    case True
    with m n have mn: "m = n" by simp
    from True n have "lookup ?w1 k = Some (n\<lparr>state := nxt\<rparr>)" by (simp add: lookup_update_node)
    with ev obtain n' where n': "lookup w' k = Some n'"
      "n'\<lparr>children := children (n\<lparr>state := nxt\<rparr>), state := state (n\<lparr>state := nxt\<rparr>)\<rparr>
         = n\<lparr>state := nxt\<rparr>"
      "state n' = state (n\<lparr>state := nxt\<rparr>) \<or> background (n\<lparr>state := nxt\<rparr>) (state n')"
      unfolding evolves_def by blast
    from n'(3) trm have st: "state n' = nxt"
      by (auto simp: background_def refreshable_def IsTerminal_def)
    from n'(2) have "n'\<lparr>children := children n, state := nxt\<rparr> = n\<lparr>state := nxt\<rparr>"
      by simp
    then have "(n'\<lparr>children := children n, state := nxt\<rparr>)\<lparr>state := state n\<rparr>
               = (n\<lparr>state := nxt\<rparr>)\<lparr>state := state n\<rparr>" by (rule arg_cong)
    then have "n'\<lparr>children := children n, state := state n\<rparr> = n" by simp
    moreover from st t ok have "legal_transition (state n) (state n')"
      by (simp add: legal_transition_def)
    ultimately show ?thesis using n'(1) mn by blast
  next
    case False
    with m have "lookup ?w1 k = Some m" by (simp add: lookup_update_node)
    with ev obtain n' where n': "lookup w' k = Some n'"
      "n'\<lparr>children := children m, state := state m\<rparr> = m"
      "state n' = state m \<or> background m (state n')"
      unfolding evolves_def by blast
    then show ?thesis using background_legal by blast
  qed
qed (use ev in \<open>auto simp: evolves_def\<close>)

lemma SetState_advances:
  assumes "SetState nid nxt w = Inr w'"
  shows "advances w w'"
  using assms
proof (cases rule: SetState_result)
  case (same n)
  then show ?thesis by (simp add: advances_refl)
next
  case (moved n)
  show ?thesis
    unfolding advances_def evolves_def moved(6)
  proof (intro conjI allI impI)
    fix k m assume m: "lookup w k = Some m"
    show "\<exists>n'. lookup (update_node nid (\<lambda>n. n\<lparr>state := nxt\<rparr>) w) k = Some n'
        \<and> n'\<lparr>children := children m, state := state m\<rparr> = m
        \<and> (state n' = state m \<or> legal_transition (state m) (state n'))"
      using m moved(1,3,4) by (auto simp: lookup_update_node legal_transition_def)
  qed simp_all
qed

lemma RefreshRunnable_evolves:
  "RefreshRunnable w = Inr (nl, w') \<Longrightarrow> evolves background w w'"
  by (drule RefreshRunnable_restated, erule restated_evolves) (simp add: background_def)

lemma evolves_completed:
  "evolves R w w2 \<Longrightarrow> evolves R w (w2\<lparr>completed_iters := x\<rparr>)"
  by (simp add: evolves_def lookup_def)

lemma update_state_next [simp]:
  "next_node_id (graph (update_node nid f w)) = next_node_id (graph w)"
  by simp

lemma MarkSucceeded_parts:
  assumes "MarkSucceeded nid w = Inr w'"
  obtains n0 w1 w3 nl where "lookup w nid = Some n0" "SetState nid Succeeded w = Inr w1"
    "ntype n0 = Plan \<longrightarrow> ExpandIterationFromPlan nid w1 = Inr w3"
    "ntype n0 \<noteq> Plan \<and> ntype n0 = DecideNext \<longrightarrow>
       (\<exists>w2. OnDecideNext nid w1 = Inr w2
             \<and> w3 = w2\<lparr>completed_iters := max (completed_iters w2) (wrap_int32 (iter n0 + 1))\<rparr>)"
    "ntype n0 \<noteq> Plan \<and> ntype n0 \<noteq> DecideNext \<longrightarrow> w3 = w1"
    "RefreshRunnable w3 = Inr (nl, w')"
proof -
  from assms obtain n0 where n0: "lookup w nid = Some n0"
    by (auto simp: MarkSucceeded_def bindE_eq_Inr)
  with assms obtain w1 w3 nl where s: "SetState nid Succeeded w = Inr w1"
    and m: "(if ntype n0 = Plan then ExpandIterationFromPlan nid w1
              else if ntype n0 = DecideNext
              then bindE (OnDecideNext nid w1) (\<lambda>w2.
                     Inr (w2\<lparr>completed_iters := max (completed_iters w2) (wrap_int32 (iter n0 + 1))\<rparr>))
              else Inr w1) = Inr w3"
    and r: "RefreshRunnable w3 = Inr (nl, w')"
    by (auto simp: MarkSucceeded_def Let_def node_def bindE_eq_Inr)
  show ?thesis
    by (rule that [OF n0 s _ _ _ r]) (use m in \<open>auto simp: bindE_eq_Inr split: if_splits\<close>)
qed

lemma MarkSucceeded_middle:
  assumes "lookup w nid = Some n0" "0 < next_node_id (graph w1)"
    "ntype n0 = Plan \<longrightarrow> ExpandIterationFromPlan nid w1 = Inr w3"
    "ntype n0 \<noteq> Plan \<and> ntype n0 = DecideNext \<longrightarrow>
       (\<exists>w2. OnDecideNext nid w1 = Inr w2
             \<and> w3 = w2\<lparr>completed_iters := max (completed_iters w2) (wrap_int32 (iter n0 + 1))\<rparr>)"
    "ntype n0 \<noteq> Plan \<and> ntype n0 \<noteq> DecideNext \<longrightarrow> w3 = w1"
  shows "evolves background w1 w3"
proof (cases "ntype n0 = Plan")
  case True
  with assms(3) have "ExpandIterationFromPlan nid w1 = Inr w3" by simp
  then show ?thesis using assms(2) by (rule Expand_evolves)
next
  case False
  show ?thesis
  proof (cases "ntype n0 = DecideNext")
    case True
    with False assms(4) obtain w2 where w2: "OnDecideNext nid w1 = Inr w2"
      "w3 = w2\<lparr>completed_iters := max (completed_iters w2) (wrap_int32 (iter n0 + 1))\<rparr>" by blast
    from OnDecideNext_evolves [OF w2(1) assms(2)] w2(2) show ?thesis
      by (simp add: evolves_completed)
  next
    case nd: False
    with False assms(5) show ?thesis by (simp add: evolves_refl)
  qed
qed

lemma MarkSucceeded_advances:
  assumes run: "MarkSucceeded nid w = Inr w'" and pos: "0 < next_node_id (graph w)"
  shows "advances w w'"
  using run
proof (cases rule: MarkSucceeded_parts)
  case (1 n0 w1 w3 nl)
  from 1(2) show ?thesis
  proof (cases rule: SetState_result)
    case (same n)
    with pos have p1: "0 < next_node_id (graph w1)" by simp
    from MarkSucceeded_middle [OF 1(1) p1 1(3,4,5)] RefreshRunnable_evolves [OF 1(6)]
    have "evolves background w1 w'" by (rule evolves_trans)
    with same show ?thesis by (simp add: evolves_advances)
  next
    case (moved n)
    with pos have p1: "0 < next_node_id (graph w1)" by simp
    from MarkSucceeded_middle [OF 1(1) p1 1(3,4,5)] RefreshRunnable_evolves [OF 1(6)]
    have "evolves background w1 w'" by (rule evolves_trans)
    with moved show ?thesis
      by (intro terminal_then_background [of w nid n Succeeded]) (simp_all add: IsTerminal_def)
  qed
qed

lemma MarkFailed_advances:
  assumes run: "MarkFailed nid w = Inr w'"
  shows "advances w w'"
proof -
  from run obtain w1 nl where s: "SetState nid Failed w = Inr w1"
    and r: "RefreshRunnable w1 = Inr (nl, w')"
    by (auto simp: MarkFailed_def bindE_eq_Inr)
  from s show ?thesis
  proof (cases rule: SetState_result)
    case (same n)
    with RefreshRunnable_evolves [OF r] show ?thesis by (simp add: evolves_advances)
  next
    case (moved n)
    with RefreshRunnable_evolves [OF r] show ?thesis
      by (intro terminal_then_background [of w nid n Failed]) (simp_all add: IsTerminal_def)
  qed
qed

lemma Cancel_advances:
  assumes run: "Cancel nid w = Inr w'"
  shows "advances w w'"
proof -
  from run obtain n where n: "lookup w nid = Some n"
    by (auto simp: Cancel_def bindE_eq_Inr)
  show ?thesis
  proof (cases "IsTerminal (state n)")
    case True
    with run n show ?thesis by (simp add: Cancel_def node_def advances_refl)
  next
    case False
    with run n obtain nl where
      "RefreshRunnable (update_node nid (\<lambda>n. n\<lparr>state := Cancelled\<rparr>) w) = Inr (nl, w')"
      by (auto simp: Cancel_def node_def bindE_eq_Inr)
    from RefreshRunnable_evolves [OF this] n False show ?thesis
      by (intro terminal_then_background [of w nid n Cancelled])
        (simp_all add: IsTerminal_def target_ok_def)
  qed
qed

lemma call_advances:
  assumes "call m w = Inr w'" "0 < next_node_id (graph w)"
  shows "advances w w'"
proof (cases m)
  case (CallMarkQueued nid)
  with assms show ?thesis by (simp add: MarkQueued_def SetState_advances)
next
  case (CallMarkRunning nid)
  with assms show ?thesis by (simp add: MarkRunning_def SetState_advances)
next
  case (CallMarkSucceeded nid)
  with assms show ?thesis by (simp add: MarkSucceeded_advances)
next
  case (CallMarkFailed nid)
  with assms show ?thesis by (simp add: MarkFailed_advances)
next
  case (CallCancel nid)
  with assms show ?thesis by (simp add: Cancel_advances)
next
  case CallRefreshRunnable
  with assms obtain nl where "RefreshRunnable w = Inr (nl, w')"
    by (auto simp: bindE_eq_Inr)
  then show ?thesis by (intro evolves_advances RefreshRunnable_evolves)
next
  case (CallPruneAfterStop stop)
  with assms show ?thesis by (simp add: evolves_advances PruneAfterStop_evolves)
qed

lemma DepsSatisfied_loop_True:
  "DepsSatisfied_loop w ds = Inr True \<Longrightarrow>
     \<forall>d\<in>set ds. \<exists>p. lookup w d = Some p \<and> state p = Succeeded"
  by (induction ds) (auto simp: bindE_eq_Inr split: if_splits)

lemma DepsSatisfied_True:
  "DepsSatisfied w n = Inr True \<Longrightarrow>
     \<forall>d\<in>set (deps n). \<exists>p. lookup w d = Some p \<and> state p = Succeeded"
  unfolding DepsSatisfied_def by (rule DepsSatisfied_loop_True)

lemma SetState_changes:
  assumes "SetState nid nxt w = Inr w'" "lookup w' k = Some n'" "state n' \<noteq> nxt"
  shows "lookup w k = Some n'"
  using assms(1)
proof (cases rule: SetState_result)
  case (same m)
  with assms show ?thesis by simp
next
  case (moved m)
  with assms show ?thesis by (auto simp: lookup_update_node split: if_splits option.splits)
qed

text \<open>
  A node that is Runnable after a call, and was not Runnable before it or did not exist,
  has all its deps satisfied.
\<close>

lemma call_runnable:
  assumes run: "call m w = Inr w'" and n': "lookup w' k = Some n'"
    and r: "state n' = Runnable" and ch: "\<forall>n. lookup w k = Some n \<longrightarrow> state n \<noteq> Runnable"
  shows "DepsSatisfied w' n' = Inr True"
proof (cases m)
  case (CallMarkQueued nid)
  with run have "SetState nid Queued w = Inr w'" by (simp add: MarkQueued_def)
  from SetState_changes [OF this n'] r ch show ?thesis by simp
next
  case (CallMarkRunning nid)
  with run have "SetState nid Running w = Inr w'" by (simp add: MarkRunning_def)
  from SetState_changes [OF this n'] r ch show ?thesis by simp
next
  case (CallMarkSucceeded nid)
  with run have "MarkSucceeded nid w = Inr w'" by simp
  then show ?thesis
  proof (cases rule: MarkSucceeded_parts)
    case (1 n0 w1 w3 nl)
    from 1(6) n' r show ?thesis by (rule RefreshRunnable_post)
  qed
next
  case (CallMarkFailed nid)
  with run obtain w1 nl where "RefreshRunnable w1 = Inr (nl, w')"
    by (auto simp: MarkFailed_def bindE_eq_Inr)
  from this n' r show ?thesis by (rule RefreshRunnable_post)
next
  case (CallCancel nid)
  with run obtain n0 where n0: "lookup w nid = Some n0"
    by (auto simp: Cancel_def bindE_eq_Inr)
  show ?thesis
  proof (cases "IsTerminal (state n0)")
    case True
    with run n0 CallCancel have "w' = w" by (simp add: Cancel_def node_def)
    with n' r ch show ?thesis by simp
  next
    case False
    with run n0 CallCancel obtain w1 nl where "RefreshRunnable w1 = Inr (nl, w')"
      by (auto simp: Cancel_def node_def bindE_eq_Inr)
    from this n' r show ?thesis by (rule RefreshRunnable_post)
  qed
next
  case CallRefreshRunnable
  with run obtain nl where "RefreshRunnable w = Inr (nl, w')"
    by (auto simp: bindE_eq_Inr)
  from this n' r show ?thesis by (rule RefreshRunnable_post)
next
  case (CallPruneAfterStop stop)
  with run obtain w1 nl where "RefreshRunnable w1 = Inr (nl, w')"
    by (auto simp: PruneAfterStop_def bindE_eq_Inr)
  from this n' r show ?thesis by (rule RefreshRunnable_post)
qed

lemma advances_pos:
  "advances w w' \<Longrightarrow> 0 < next_node_id (graph w) \<Longrightarrow> 0 < next_node_id (graph w')"
  by (auto simp: advances_def evolves_def)

lemma advances_node:
  assumes "advances w w'" "lookup w k = Some n"
  obtains n' where "lookup w' k = Some n'" "legal_transition (state n) (state n')"
    "deps n' = deps n" "node_kind n' = node_kind n"
proof -
  from assms obtain n' where n': "lookup w' k = Some n'"
    "n'\<lparr>children := children n, state := state n\<rparr> = n"
    "state n' = state n \<or> legal_transition (state n) (state n')"
    unfolding advances_def evolves_def by blast
  from n'(2) have "deps (n'\<lparr>children := children n, state := state n\<rparr>) = deps n"
    "node_kind (n'\<lparr>children := children n, state := state n\<rparr>) = node_kind n" by simp_all
  then have "deps n' = deps n" "node_kind n' = node_kind n" by (simp_all add: node_kind_def)
  with n'(1,3) show ?thesis by (intro that [of n']) (auto simp: legal_transition_def)
qed

lemma calls_Nil [simp]: "calls [] w = Inr w"
  by (simp add: calls_def)

lemma calls_Cons:
  "calls (m # ms) w = bindE (call m w) (calls ms)"
proof -
  have "calls ms = foldE call ms" by (rule ext) (simp add: calls_def)
  then show ?thesis by (simp add: calls_def)
qed

lemma calls_advances:
  "calls ms w = Inr w' \<Longrightarrow> 0 < next_node_id (graph w) \<Longrightarrow>
     0 < next_node_id (graph w')
     \<and> (wf_done w \<longrightarrow> wf_done w')
     \<and> (\<forall>k n. lookup w k = Some n \<longrightarrow> (\<exists>n'. lookup w' k = Some n'
           \<and> node_kind n' = node_kind n \<and> deps n' = deps n
           \<and> (IsTerminal (state n) \<longrightarrow> state n' = state n)))"
proof (induction ms arbitrary: w)
  case Nil
  then show ?case by simp
next
  case (Cons m ms)
  from Cons.prems(1) obtain w1 where s: "call m w = Inr w1" and r: "calls ms w1 = Inr w'"
    by (auto simp: calls_Cons bindE_eq_Inr)
  from s Cons.prems(2) have a: "advances w w1" by (rule call_advances)
  from a Cons.prems(2) have p: "0 < next_node_id (graph w1)" by (rule advances_pos)
  note ih = Cons.IH [OF r p]
  show ?case
  proof (intro conjI allI impI)
    show "0 < next_node_id (graph w')" using ih by simp
    show "wf_done w'" if "wf_done w" using that a ih by (simp add: advances_def evolves_def)
    fix k n assume n: "lookup w k = Some n"
    from a n obtain n1 where n1: "lookup w1 k = Some n1" "legal_transition (state n) (state n1)"
      "deps n1 = deps n" "node_kind n1 = node_kind n" by (rule advances_node)
    from ih n1(1) obtain n' where n': "lookup w' k = Some n'" "node_kind n' = node_kind n1"
      "deps n' = deps n1" "IsTerminal (state n1) \<longrightarrow> state n' = state n1" by blast
    from n1(2) have "IsTerminal (state n) \<longrightarrow> state n1 = state n"
      by (auto simp: legal_transition_def)
    with n' n1 show "\<exists>n'. lookup w' k = Some n' \<and> node_kind n' = node_kind n
        \<and> deps n' = deps n \<and> (IsTerminal (state n) \<longrightarrow> state n' = state n)"
      by auto
  qed
qed

lemma legal_transition_cases:
  assumes "legal_transition s s'" "s' \<noteq> s"
  shows "\<not> IsTerminal s \<and> (s' = Queued \<longrightarrow> s = Runnable)
     \<and> (s' = Running \<longrightarrow> s = Queued \<or> s = Runnable)
     \<and> (s' = Succeeded \<or> s' = Failed \<longrightarrow> s = Runnable \<or> s = Queued \<or> s = Running)"
  using assms by (auto simp: legal_transition_def target_ok_def split: NodeState.splits)



section \<open>The node state machine\<close>

text \<open>
  C2. Let \<open>w\<close> be a workflow whose id counter is positive (the constructor starts it at 1
  and it only grows), and \<open>n\<close> one of its nodes. Whenever one call of MarkQueued,
  MarkRunning, MarkSucceeded, MarkFailed, Cancel, RefreshRunnable or PruneAfterStop returns,
  the node is still there, and if its state has changed then: it was not terminal; if it
  is now Runnable, every node in its \<open>deps\<close> is Succeeded; if it is now Queued it was
  Runnable; if it is now Running it was Queued or Runnable; if it is now Succeeded or Failed
  it was Runnable, Queued or Running; if it is now Cancelled it was not terminal. A node
  that the call has created and that is Runnable after it has every node in its \<open>deps\<close>
  Succeeded as well. A node whose state is Succeeded, Failed or Cancelled has that same
  state after any sequence of such calls that returns. (A call that throws is a call with
  no resulting workflow.)
\<close>

theorem mutators_respect_state_machine:
  assumes pos: "0 < next_node_id (graph w)" and n: "lookup w k = Some n"
  shows "(call m w = Inr w' \<longrightarrow>
           (\<exists>n'. lookup w' k = Some n'
              \<and> (IsTerminal (state n) \<longrightarrow> state n' = state n)
              \<and> (state n' \<noteq> state n \<longrightarrow>
                   (state n' = Runnable \<longrightarrow>
                      (\<forall>d\<in>set (deps n'). \<exists>p. lookup w' d = Some p \<and> state p = Succeeded))
                 \<and> (state n' = Queued \<longrightarrow> state n = Runnable)
                 \<and> (state n' = Running \<longrightarrow> state n = Queued \<or> state n = Runnable)
                 \<and> (state n' = Succeeded \<or> state n' = Failed \<longrightarrow>
                      state n = Runnable \<or> state n = Queued \<or> state n = Running)
                 \<and> (state n' = Cancelled \<longrightarrow> \<not> IsTerminal (state n))))
           \<and> (\<forall>j c. lookup w j = None \<and> lookup w' j = Some c \<and> state c = Runnable \<longrightarrow>
                  (\<forall>d\<in>set (deps c). \<exists>p. lookup w' d = Some p \<and> state p = Succeeded)))
       \<and> (calls ms w = Inr w'' \<and> IsTerminal (state n) \<longrightarrow>
            (\<exists>n''. lookup w'' k = Some n'' \<and> state n'' = state n))"
proof (intro conjI impI allI)
  assume run: "call m w = Inr w'"
  from run pos have "advances w w'" by (rule call_advances)
  from this n obtain n' where n': "lookup w' k = Some n'"
    "legal_transition (state n) (state n')" by (rule advances_node)
  have "\<forall>d\<in>set (deps n'). \<exists>p. lookup w' d = Some p \<and> state p = Succeeded"
    if "state n' = Runnable" "state n' \<noteq> state n"
    using call_runnable [OF run n'(1)] that n by (intro DepsSatisfied_True) simp
  with n' legal_transition_cases [OF n'(2)]
  show "\<exists>n'. lookup w' k = Some n'
              \<and> (IsTerminal (state n) \<longrightarrow> state n' = state n)
              \<and> (state n' \<noteq> state n \<longrightarrow>
                   (state n' = Runnable \<longrightarrow>
                      (\<forall>d\<in>set (deps n'). \<exists>p. lookup w' d = Some p \<and> state p = Succeeded))
                 \<and> (state n' = Queued \<longrightarrow> state n = Runnable)
                 \<and> (state n' = Running \<longrightarrow> state n = Queued \<or> state n = Runnable)
                 \<and> (state n' = Succeeded \<or> state n' = Failed \<longrightarrow>
                      state n = Runnable \<or> state n = Queued \<or> state n = Running)
                 \<and> (state n' = Cancelled \<longrightarrow> \<not> IsTerminal (state n)))"
    by (intro exI [of _ n']) (auto simp: legal_transition_def)
next
  fix j c
  assume run: "call m w = Inr w'"
    and c: "lookup w j = None \<and> lookup w' j = Some c \<and> state c = Runnable"
  from c have "DepsSatisfied w' c = Inr True"
    by (intro call_runnable [OF run, of j c]) simp_all
  then show "\<forall>d\<in>set (deps c). \<exists>p. lookup w' d = Some p \<and> state p = Succeeded"
    by (rule DepsSatisfied_True)
next
  assume "calls ms w = Inr w'' \<and> IsTerminal (state n)"
  with calls_advances [of ms w w''] pos n
  show "\<exists>n''. lookup w'' k = Some n'' \<and> state n'' = state n" by blast
qed

lemma chain_example_run:
  "MarkSucceeded 2 chain_example = Inr chain_succeeded"
  "calls [CallCancel 2, CallRefreshRunnable] chain_succeeded = Inr chain_succeeded"
  by (simp_all add: calls_def MarkSucceeded_def Cancel_def node_def lookup_def SetState_def
      require_def RefreshRunnable_def RefreshRunnable_body_def DepsSatisfied_def update_node_def
      IsTerminal_def chain_example_def chain_succeeded_def chain_load_def chain_chunk_def
      Node_init_def)

lemma chain_example_lookup:
  "lookup chain_example 3 = Some chain_chunk"
  "lookup chain_succeeded 3 = Some (chain_chunk\<lparr>state := Runnable\<rparr>)"
  "lookup chain_succeeded 2 = Some (chain_load\<lparr>state := Succeeded\<rparr>)"
  "next_node_id (graph chain_example) = 4" "next_node_id (graph chain_succeeded) = 4"
  by (simp_all add: lookup_def chain_example_def chain_succeeded_def)

theorem mutators_respect_state_machine_witness:
  "0 < next_node_id (graph chain_example)
   \<and> lookup chain_example 3 = Some chain_chunk
   \<and> call (CallMarkSucceeded 2) chain_example = Inr chain_succeeded
   \<and> map_option state (lookup chain_succeeded 3) = Some Runnable
   \<and> map_option state (lookup chain_succeeded 2) = Some Succeeded
   \<and> calls [CallCancel 2, CallRefreshRunnable] chain_succeeded = Inr chain_succeeded"
  using mutators_respect_state_machine [of chain_example 3 chain_chunk "CallMarkSucceeded 2"
      chain_succeeded "[]" chain_example]
    mutators_respect_state_machine [of chain_succeeded 2 "chain_load\<lparr>state := Succeeded\<rparr>"
      "CallCancel 2" chain_succeeded "[CallCancel 2, CallRefreshRunnable]" chain_succeeded]
  by (simp add: chain_example_run chain_example_lookup)

section \<open>The decision to stop or to continue\<close>






section \<open>One expansion per iteration\<close>

lemma count_kind_entries: "count_kind w t k = count_entries t k (entries w)"
proof -
  have "length (filter (\<lambda>n. ntype n = t \<and> iter n = k) (map snd xs))
      = length (filter (\<lambda>e. fst (fst (snd e)) = t \<and> fst (snd (fst (snd e))) = k)
          (map (\<lambda>(k, n). (k, node_kind n, evidence_count_est n)) xs))" for xs
    by (induction xs) (auto simp: node_kind_def)
  then show ?thesis by (simp add: count_kind_def count_entries_def entries_def)
qed

lemma count_entries_append [simp]:
  "count_entries t k (xs @ ys) = count_entries t k xs + count_entries t k ys"
  by (simp add: count_entries_def)

lemma count_entries_simps [simp]:
  "count_entries t k [] = 0"
  "count_entries t k ((i, (t', k', p, q), e) # es)
     = (if t' = t \<and> k' = k then 1 else 0) + count_entries t k es"
  by (simp_all add: count_entries_def)

lemma count_entries_concat:
  "(\<And>x. x \<in> set xs \<Longrightarrow> count_entries t k (f x) = 0) \<Longrightarrow>
   count_entries t k (concat (map f xs)) = 0"
  by (induction xs) simp_all

lemma count_pdf_entries:
  "t = Aggregate \<or> t = DecideNext \<Longrightarrow> count_entries t k (pdf_entries sd wid it K l p) = 0"
  by (auto simp: pdf_entries_def subquery_entries_def intro!: count_entries_concat)

lemma count_iteration_entries:
  "t = Aggregate \<or> t = DecideNext \<Longrightarrow>
   count_entries t k (iteration_entries sd wid it P K b) = (if k = it then 1 else 0)"
  by (auto simp: iteration_entries_def count_pdf_entries intro!: count_entries_concat)

lemma guard_count:
  "(\<exists>(k, n) \<in> set (nodes (graph w)). ntype n = t \<and> iter n = it) \<longleftrightarrow> 0 < count_kind w t it"
proof -
  have "(\<exists>(k, n) \<in> set xs. ntype n = t \<and> iter n = it)
      \<longleftrightarrow> (\<exists>n \<in> set (map snd xs). ntype n = t \<and> iter n = it)" for xs :: "(nat \<times> Node) list"
    by force
  then show ?thesis
    unfolding count_kind_def length_greater_0_conv filter_empty_conv by blast
qed

lemma refresh_loop_entries:
  "foldE RefreshRunnable_body ks (nl, w) = Inr (nl', w') \<Longrightarrow> entries w' = entries w"
proof (induction ks arbitrary: nl w)
  case Nil
  then show ?case by simp
next
  case (Cons k ks)
  from Cons.prems obtain nl1 w1 where
    b: "RefreshRunnable_body k (nl, w) = Inr (nl1, w1)"
    and r: "foldE RefreshRunnable_body ks (nl1, w1) = Inr (nl', w')"
    by (auto simp: bindE_eq_Inr)
  from b have "entries w1 = entries w"
    by (cases rule: refresh_body_cases) simp_all
  with Cons.IH [OF r] show ?case by simp
qed

lemma RefreshRunnable_entries:
  "RefreshRunnable w = Inr (nl, w') \<Longrightarrow> entries w' = entries w"
  unfolding RefreshRunnable_def by (rule refresh_loop_entries)

lemma prune_fold_entries: "entries (fold (PruneAfterStop_body stop) ks w) = entries w"
proof (induction ks arbitrary: w)
  case Nil
  then show ?case by simp
next
  case (Cons a ks)
  have "entries (PruneAfterStop_body stop a w) = entries w"
    by (simp add: PruneAfterStop_body_def split: option.splits)
  with Cons.IH [of "PruneAfterStop_body stop a w"] show ?case by simp
qed

lemma PruneAfterStop_entries:
  assumes "PruneAfterStop stop w = Inr w'"
  shows "entries w' = entries w"
proof -
  from PruneAfterStop_result [OF assms] obtain nl where
    r: "RefreshRunnable (fold (PruneAfterStop_body stop) (map fst (nodes (graph w))) w)
           = Inr (nl, w')" by blast
  from RefreshRunnable_entries [OF r] show ?thesis by (simp add: prune_fold_entries)
qed

lemma SetState_entries: "SetState nid nxt w = Inr w' \<Longrightarrow> entries w' = entries w"
  by (erule SetState_result) simp_all

text \<open>What a call may do to the entries: nothing, append a Plan, or append an iteration.\<close>

lemma Expand_entries:
  assumes run: "ExpandIterationFromPlan plan w = Inr w'" and pos: "0 < next_node_id (graph w)"
  shows "w' = w
       \<or> (\<exists>it P K. count_kind w Aggregate it = 0
            \<and> entries w' = entries w
                 @ iteration_entries (seed (params w)) (wf_id w) it P K (next_node_id (graph w)))"
proof -
  from run obtain pl where pl: "lookup w plan = Some pl"
    by (auto simp: ExpandIterationFromPlan_def bindE_eq_Inr)
  show ?thesis
  proof (cases "iter pl < max_iters (params w)
      \<and> \<not> (\<exists>(k, n) \<in> set (nodes (graph w)). ntype n = Aggregate \<and> iter n = iter pl)")
    case True
    then have a: "iter pl < max_iters (params w)"
      and b: "\<not> (\<exists>(k, n) \<in> set (nodes (graph w)). ntype n = Aggregate \<and> iter n = iter pl)"
      by blast+
    from b have "count_kind w Aggregate (iter pl) = 0" unfolding guard_count by simp
    with Expand_grows [OF run pl a b pos subset_refl] show ?thesis
      unfolding grows_def by blast
  next
    case False
    with run pl have "w' = w"
      by (auto simp: ExpandIterationFromPlan_def node_def Let_def split: if_splits)
    then show ?thesis by simp
  qed
qed

lemma OnDecideNext_entries:
  assumes run: "OnDecideNext d w = Inr w'" and pos: "0 < next_node_id (graph w)"
  shows "entries w' = entries w
       \<or> (\<exists>it. entries w' = entries w @ [(next_node_id (graph w), (Plan, it, - 1, - 1), 0)])"
proof -
  from run obtain dn where dn: "lookup w d = Some dn"
    by (auto simp: OnDecideNext_def bindE_eq_Inr)
  show ?thesis
  proof (cases "ComputeDecideAction w (iter dn) = Stop")
    case True
    from OnDecideNext_Stop [OF run dn True]
    have "entries w' = entries (w\<lparr>wf_done := True, stop_iter := Some (iter dn)\<rparr>)"
      by (rule PruneAfterStop_entries)
    then show ?thesis by (simp add: entries_def)
  next
    case False
    from OnDecideNext_grows [OF run dn False pos subset_refl] show ?thesis
      unfolding grows_def by blast
  qed
qed

lemma one_per_iter_plan:
  "one_per_iter es \<Longrightarrow> one_per_iter (es @ [(i, (Plan, it, p, q), e)])"
  by (simp add: one_per_iter_def)

lemma one_per_iter_iteration:
  "one_per_iter es \<Longrightarrow> count_entries Aggregate it es = 0 \<Longrightarrow>
   one_per_iter (es @ iteration_entries sd wid it P K b)"
  by (auto simp: one_per_iter_def count_iteration_entries)

lemma MarkSucceeded_one_per_iter:
  assumes run: "MarkSucceeded nid w = Inr w'" and pos: "0 < next_node_id (graph w)"
    and inv: "one_per_iter (entries w)"
  shows "one_per_iter (entries w')"
  using run
proof (cases rule: MarkSucceeded_parts)
  case (1 n0 w1 w3 nl)
  from 1(2) have e1: "entries w1 = entries w" by (rule SetState_entries)
  from 1(2) pos have p1: "0 < next_node_id (graph w1)"
    by (cases rule: SetState_result) simp_all
  have "one_per_iter (entries w3)"
  proof (cases "ntype n0 = Plan")
    case True
    with 1(3) have "ExpandIterationFromPlan nid w1 = Inr w3" by simp
    from Expand_entries [OF this p1] inv e1 show ?thesis
      by (auto simp: count_kind_entries intro: one_per_iter_iteration)
  next
    case False
    show ?thesis
    proof (cases "ntype n0 = DecideNext")
      case True
      with False 1(4) obtain w2 where w2: "OnDecideNext nid w1 = Inr w2"
        "w3 = w2\<lparr>completed_iters := max (completed_iters w2) (wrap_int32 (iter n0 + 1))\<rparr>"
        by blast
      from w2(2) have "entries w3 = entries w2" by (simp add: entries_def)
      with OnDecideNext_entries [OF w2(1) p1] inv e1 show ?thesis
        by (auto intro: one_per_iter_plan)
    next
      case nd: False
      with False 1(5) inv e1 show ?thesis by simp
    qed
  qed
  with RefreshRunnable_entries [OF 1(6)] show ?thesis by simp
qed

lemma call_one_per_iter:
  assumes run: "call m w = Inr w'" and pos: "0 < next_node_id (graph w)"
    and inv: "one_per_iter (entries w)"
  shows "one_per_iter (entries w')"
proof (cases m)
  case (CallMarkQueued nid)
  with run inv show ?thesis by (auto simp: MarkQueued_def dest: SetState_entries)
next
  case (CallMarkRunning nid)
  with run inv show ?thesis by (auto simp: MarkRunning_def dest: SetState_entries)
next
  case (CallMarkSucceeded nid)
  with run pos inv show ?thesis by (simp add: MarkSucceeded_one_per_iter)
next
  case (CallMarkFailed nid)
  with run inv show ?thesis
    by (auto simp: MarkFailed_def bindE_eq_Inr dest!: SetState_entries RefreshRunnable_entries)
next
  case (CallCancel nid)
  with run inv show ?thesis
    by (auto simp: Cancel_def bindE_eq_Inr split: if_splits dest!: RefreshRunnable_entries)
next
  case CallRefreshRunnable
  with run inv show ?thesis by (auto simp: bindE_eq_Inr dest!: RefreshRunnable_entries)
next
  case (CallPruneAfterStop stop)
  with run inv show ?thesis by (auto dest!: PruneAfterStop_entries)
qed

lemma calls_one_per_iter:
  "calls ms w = Inr w' \<Longrightarrow> 0 < next_node_id (graph w) \<Longrightarrow> one_per_iter (entries w)
   \<Longrightarrow> one_per_iter (entries w')"
proof (induction ms arbitrary: w)
  case Nil
  then show ?case by simp
next
  case (Cons m ms)
  from Cons.prems(1) obtain w1 where s: "call m w = Inr w1" and r: "calls ms w1 = Inr w'"
    by (auto simp: calls_Cons bindE_eq_Inr)
  from s Cons.prems(2) have "advances w w1" by (rule call_advances)
  from this Cons.prems(2) have p: "0 < next_node_id (graph w1)" by (rule advances_pos)
  from call_one_per_iter [OF s Cons.prems(2,3)] have "one_per_iter (entries w1)" .
  from Cons.IH [OF r p this] show ?case .
qed

lemma Workflow_init_entries:
  assumes "Workflow_init wid ps tcs = Inr w"
  shows "entries w = [(1, (Plan, 0, - 1, - 1), 0)] \<and> next_node_id (graph w) = 2"
proof -
  define w0 where "w0 = \<lparr>wf_id = wid, params = ps, provider_config = Some tcs,
                  graph = \<lparr>nodes = [], next_node_id = 1\<rparr>,
                  wf_done = False, completed_iters = 0, stop_iter = None\<rparr>"
  from assms obtain w1 nl where e: "EnsureInitialPlan w0 = Inr w1"
    and r: "RefreshRunnable w1 = Inr (nl, w)"
    by (auto simp: Workflow_init_def w0_def bindE_eq_Inr split: if_splits)
  have z: "entries w0 = []" "lookup w0 k = None" "next_node_id (graph w0) = 1"
    "wf_id w0 = wid" "params w0 = ps" for k
    by (simp_all add: entries_def lookup_def w0_def)
  define pn where "pn = Node_init\<lparr>node_id := 1, workflow_id := wid, ntype := Plan,
                   resource_class := llm, idempotent := True, iter := 0, state := Runnable,
                   output_size_est :=
                     size_t_of_int
                       (wrap_int32 (200 + 10 * subqueries_per_iter ps + 3 * pdfs ps))\<rparr>"
  have pn: "node_id pn = 1" "node_kind pn = (Plan, 0, - 1, - 1)" "evidence_count_est pn = 0"
    by (simp_all add: pn_def node_kind_def Node_init_def)
  have "EnsureInitialPlan w0
          = bindE (AddNode pn (bump_id w0)) (\<lambda>(p, w2). Inr (PopulatePreferenceListForNode p w2))"
    unfolding EnsureInitialPlan_def NewNodeId_eq Let_def prod.case pn_def
    by (simp add: z)
  with e have w1: "w1 = update_node 1 (populate (provider_config w0))
                    (append_node 1 (fix_workflow_id (bump_id w0) pn) (bump_id w0))"
    by (simp add: AddNode_eq pn Populate_eq z)
  have "node_kind (fix_workflow_id v pn) = node_kind pn"
    "evidence_count_est (fix_workflow_id v pn) = evidence_count_est pn" for v
    by (simp_all add: fix_workflow_id_def node_kind_def)
  with pn have "entries w1 = [(1, (Plan, 0, - 1, - 1), 0)] \<and> next_node_id (graph w1) = 2"
    unfolding w1 by (simp add: z)
  moreover from RefreshRunnable_restated [OF r]
  have "next_node_id (graph w) = next_node_id (graph w1)"
    by (simp add: restated_def same_frame_def)
  ultimately show ?thesis using RefreshRunnable_entries [OF r] by simp
qed

lemma Expand_guarded:
  assumes "lookup w plan = Some pl" "0 < count_kind w Aggregate (iter pl)"
  shows "ExpandIterationFromPlan plan w = Inr w"
  using assms by (simp add: ExpandIterationFromPlan_def node_def Let_def guard_count)

lemma Expand_idempotent:
  assumes run: "ExpandIterationFromPlan plan w = Inr w1" and pos: "0 < next_node_id (graph w)"
  shows "ExpandIterationFromPlan plan w1 = Inr w1"
proof -
  from run obtain pl where pl: "lookup w plan = Some pl"
    by (auto simp: ExpandIterationFromPlan_def bindE_eq_Inr)
  show ?thesis
  proof (cases "iter pl < max_iters (params w)
      \<and> \<not> (\<exists>(k, n) \<in> set (nodes (graph w)). ntype n = Aggregate \<and> iter n = iter pl)")
    case True
    then have a: "iter pl < max_iters (params w)"
      and b: "\<not> (\<exists>(k, n) \<in> set (nodes (graph w)). ntype n = Aggregate \<and> iter n = iter pl)"
      by blast+
    note g = Expand_grows [OF run pl a b pos subset_refl]
    from g pl obtain pl' where pl': "lookup w1 plan = Some pl'"
      "pl'\<lparr>children := children pl\<rparr> = pl"
      unfolding grows_def preserves_def by blast
    from pl'(2) have "iter (pl'\<lparr>children := children pl\<rparr>) = iter pl" by simp
    then have it: "iter pl' = iter pl" by simp
    from g have "count_kind w1 Aggregate (iter pl) = count_kind w Aggregate (iter pl) + 1"
      by (simp add: count_kind_entries grows_def count_iteration_entries)
    with pl'(1) it show ?thesis by (intro Expand_guarded [of w1 plan pl']) simp_all
  next
    case False
    with run pl have "w1 = w"
      by (auto simp: ExpandIterationFromPlan_def node_def Let_def split: if_splits)
    with run show ?thesis by simp
  qed
qed

lemma plan_example_expand:
  "ExpandIterationFromPlan 2 plan_example = Inr plan_expanded"
  by (simp add: ExpandIterationFromPlan_def expand_pdf_def expand_subquery_def node_def
      lookup_def NewNodeId_def AddNode_def AddEdge_def PopulatePreferenceListForNode_def
      InitializeStateFromDeps_def DepsSatisfied_def IsTerminal_def update_node_def
      new_node_def plan_example_def plan_expanded_def plan_node_example_def Node_init_def
      Let_def)

lemma plan_example_facts:
  "lookup plan_expanded 2 = Some (plan_node_example\<lparr>children := [3]\<rparr>)"
  "iter plan_node_example = 0"
  "count_kind plan_expanded Aggregate 0 = 1"
  "next_node_id (graph plan_example) = 3"
  by (simp_all add: lookup_def count_kind_def plan_expanded_def plan_example_def
      plan_node_example_def Node_init_def)

lemma init_example_run:
  "Workflow_init 7 init_params [] = Inr init_example"
  "calls [CallMarkSucceeded 1] init_example = Inr init_succeeded"
  by (simp_all add: Workflow_init_def EnsureInitialPlan_def calls_def MarkSucceeded_def
      SetState_def require_def RefreshRunnable_def RefreshRunnable_body_def
      ExpandIterationFromPlan_def expand_pdf_def expand_subquery_def node_def
      lookup_def NewNodeId_def AddNode_def AddEdge_def PopulatePreferenceListForNode_def
      preference_list_for_def
      InitializeStateFromDeps_def DepsSatisfied_def IsTerminal_def update_node_def
      new_node_def init_example_def init_succeeded_def init_params_def Node_init_def
      size_t_of_int_def wrap_int32_def Let_def)

lemma init_example_counts:
  "count_kind init_succeeded Aggregate 0 = 1" "count_kind init_succeeded DecideNext 0 = 1"
  by (simp_all add: count_kind_def init_succeeded_def Node_init_def)

text \<open>
  C9. If the workflow holds an Aggregate node of the iteration of the Plan node,
  \<open>ExpandIterationFromPlan\<close> returns the workflow unchanged. Hence expanding is idempotent:
  whenever \<open>ExpandIterationFromPlan\<close> returns (for a workflow whose id counter is positive),
  calling it again for the same Plan node returns the same workflow. And every workflow
  that the constructor has built and a sequence of calls of the mutators has led to holds
  at most one Aggregate node and at most one DecideNext node of each iteration.
\<close>

theorem expansion_once_per_iteration:
  "(lookup w plan = Some pl \<and> 0 < count_kind w Aggregate (iter pl)
      \<longrightarrow> ExpandIterationFromPlan plan w = Inr w)
   \<and> (0 < next_node_id (graph w) \<and> ExpandIterationFromPlan plan w = Inr w1
      \<longrightarrow> ExpandIterationFromPlan plan w1 = Inr w1)
   \<and> (Workflow_init wid ps tcs = Inr w0 \<and> calls ms w0 = Inr v
      \<longrightarrow> count_kind v Aggregate k \<le> 1 \<and> count_kind v DecideNext k \<le> 1)"
proof (intro conjI impI)
  show "ExpandIterationFromPlan plan w = Inr w"
    if "lookup w plan = Some pl \<and> 0 < count_kind w Aggregate (iter pl)"
    using that by (intro Expand_guarded [of w plan pl]) simp_all
  show "ExpandIterationFromPlan plan w1 = Inr w1"
    if "0 < next_node_id (graph w) \<and> ExpandIterationFromPlan plan w = Inr w1"
    using that by (intro Expand_idempotent [of plan w]) simp_all
  assume a: "Workflow_init wid ps tcs = Inr w0 \<and> calls ms w0 = Inr v"
  then have i: "Workflow_init wid ps tcs = Inr w0" and c: "calls ms w0 = Inr v" by simp_all
  from Workflow_init_entries [OF i] have "0 < next_node_id (graph w0)"
    "one_per_iter (entries w0)" by (simp_all add: one_per_iter_def)
  from calls_one_per_iter [OF c this] have o: "one_per_iter (entries v)" .
  then have "count_kind v DecideNext k \<le> count_kind v Aggregate k"
    "count_kind v Aggregate k \<le> 1"
    by (simp_all add: one_per_iter_def count_kind_entries)
  then show "count_kind v Aggregate k \<le> 1" "count_kind v DecideNext k \<le> 1" by simp_all
qed

theorem expansion_once_per_iteration_witness:
  "ExpandIterationFromPlan 2 plan_example = Inr plan_expanded
   \<and> ExpandIterationFromPlan 2 plan_expanded = Inr plan_expanded
   \<and> count_kind plan_expanded Aggregate 0 = 1
   \<and> Workflow_init 7 init_params [] = Inr init_example
   \<and> calls [CallMarkSucceeded 1] init_example = Inr init_succeeded
   \<and> count_kind init_succeeded Aggregate 0 = 1
   \<and> count_kind init_succeeded DecideNext 0 = 1"
  using expansion_once_per_iteration [where w = plan_expanded and plan = 2
      and pl = "plan_node_example\<lparr>children := [3]\<rparr>" and ?w1.0 = plan_expanded
      and wid = 7 and ps = init_params and tcs = "[]" and ?w0.0 = init_example
      and ms = "[CallMarkSucceeded 1]" and v = init_succeeded and k = 0]
    expansion_once_per_iteration [where w = plan_example and plan = 2
      and pl = plan_node_example and ?w1.0 = plan_expanded
      and wid = 7 and ps = init_params and tcs = "[]" and ?w0.0 = init_example
      and ms = "[]" and v = init_example and k = 0]
  by (simp add: plan_example_expand plan_example_facts init_example_run [unfolded One_nat_def]
      init_example_counts)

section \<open>The choice of an execution option\<close>











section \<open>The expansion of an iteration\<close>

lemma graph_ok_fresh:
  "graph_ok w \<Longrightarrow> next_node_id (graph w) \<le> k \<Longrightarrow> lookup w k = None"
  unfolding graph_ok_def by (metis not_le)

lemma grows_graph_ok:
  assumes "grows K w w' es E" "graph_ok w"
    "\<forall>i \<in> fst ` set es. i < next_node_id (graph w) + length es"
  shows "graph_ok w'"
proof -
  from assms(1) have d: "dom (lookup w') = dom (lookup w) \<union> fst ` set es" by (rule grows_dom)
  from assms(1) have n: "next_node_id (graph w') = next_node_id (graph w) + length es"
    by (simp add: grows_def)
  show ?thesis
    unfolding graph_ok_def n
  proof (intro conjI allI impI)
    show "0 < next_node_id (graph w) + length es" using assms(2) by (simp add: graph_ok_def)
    fix k assume "lookup w' k \<noteq> None"
    then have "k \<in> dom (lookup w) \<union> fst ` set es" using d by auto
    then show "k < next_node_id (graph w) + length es"
    proof
      assume "k \<in> dom (lookup w)"
      with assms(2) have "k < next_node_id (graph w)" by (auto simp: graph_ok_def)
      then show ?thesis by simp
    next
      assume "k \<in> fst ` set es"
      with assms(3) show ?thesis by blast
    qed
  qed
qed

lemma foldE_ok:
  assumes "I s" "\<And>x s. I s \<Longrightarrow> \<exists>s'. f x s = Inr s' \<and> I s'"
  shows "\<exists>s'. foldE f xs s = Inr s' \<and> I s'"
  using assms(1)
proof (induction xs arbitrary: s)
  case Nil
  then show ?case by simp
next
  case (Cons x xs)
  from assms(2) [OF Cons.prems, of x] obtain s1 where "f x s = Inr s1" "I s1" by blast
  with Cons.IH [of s1] show ?case by simp
qed

lemma expand_subquery_ok:
  assumes ok: "graph_ok w" and e: "e \<in> dom (lookup w)"
  shows "\<exists>w'. expand_subquery it p e q (w, ex)
                 = Inr (w', ex @ [Suc (next_node_id (graph w))])
             \<and> graph_ok w' \<and> dom (lookup w) \<subseteq> dom (lookup w')
             \<and> Suc (next_node_id (graph w)) \<in> dom (lookup w')"
proof -
  let ?b = "next_node_id (graph w)"
  from ok have pos: "0 < ?b" by (simp add: graph_ok_def)
  from ok have fresh: "lookup w ?b = None" "lookup w (Suc ?b) = None"
    by (simp_all add: graph_ok_fresh)
  from e fresh have ne: "e \<noteq> ?b" "e \<noteq> Suc ?b" by auto
  from e obtain en where en: "lookup w e = Some en" by auto
  from pos fresh ne en obtain w' where
    run: "expand_subquery it p e q (w, ex) = Inr (w', ex @ [Suc ?b])"
    by (auto simp: expand_subquery_def NewNodeId_eq Let_def AddNode_eq AddEdge_eq Populate_eq
        lookup_update_node)
  from expand_subquery_grows [OF run pos subset_refl]
  have g: "grows (dom (lookup w)) w w'
      (subquery_entries (seed (params w)) (wf_id w) it p ?b q) (subquery_edges e ?b)" by simp
  from g ok have "graph_ok w'"
    by (rule grows_graph_ok) (simp add: subquery_entries_def)
  moreover from grows_dom [OF g]
  have "dom (lookup w) \<subseteq> dom (lookup w')" "Suc ?b \<in> dom (lookup w')"
    by (auto simp: subquery_entries_def)
  ultimately show ?thesis using run by blast
qed

lemma subquery_loop_ok:
  assumes "loop_ok D (w, ex)" "e \<in> D"
  shows "\<exists>s'. foldE (expand_subquery it p e) qs (w, ex) = Inr s' \<and> loop_ok D s'"
proof (rule foldE_ok [where I = "loop_ok D", OF assms(1)])
  fix q s assume s: "loop_ok D s"
  obtain v xs where v: "s = (v, xs)" by (cases s)
  from s v assms(2) have ok: "graph_ok v" and e: "e \<in> dom (lookup v)"
    by (auto simp: loop_ok_def)
  from expand_subquery_ok [OF ok e, of it p q xs] obtain w' where
    r: "expand_subquery it p e q (v, xs) = Inr (w', xs @ [Suc (next_node_id (graph v))])"
    and o: "graph_ok w'" and d: "dom (lookup v) \<subseteq> dom (lookup w')"
    and m: "Suc (next_node_id (graph v)) \<in> dom (lookup w')" by blast
  from s v have "D \<subseteq> dom (lookup v)" "set xs \<subseteq> dom (lookup v)"
    by (simp_all add: loop_ok_def)
  with d have "D \<subseteq> dom (lookup w')" "set xs \<subseteq> dom (lookup w')" by blast+
  with o m have "loop_ok D (w', xs @ [Suc (next_node_id (graph v))])"
    by (simp add: loop_ok_def)
  with r v show "\<exists>s'. expand_subquery it p e q s = Inr s' \<and> loop_ok D s'" by simp
qed

lemma expand_pdf_unfold:
  assumes ok: "graph_ok w" and pl: "plan \<in> dom (lookup w)"
  shows "expand_pdf plan it p (w, ex)
           = foldE (expand_subquery it p (next_node_id (graph w) + 2))
               (map int [0..<nat (subqueries_per_iter (params w))]) (pdf_chain plan it p w, ex)"
proof -
  let ?b = "next_node_id (graph w)"
  from ok have pos: "0 < ?b" by (simp add: graph_ok_def)
  from ok have fresh: "lookup w ?b = None" "lookup w (Suc ?b) = None"
    "lookup w (Suc (Suc ?b)) = None"
    by (simp_all add: graph_ok_fresh)
  from pl fresh have ne: "plan \<noteq> ?b" "plan \<noteq> Suc ?b" "plan \<noteq> Suc (Suc ?b)" by auto
  from pl obtain pn where pn: "lookup w plan = Some pn" by auto
  from pos fresh ne pn show ?thesis
    by (auto simp: expand_pdf_def pdf_chain_def NewNodeId_eq Let_def AddNode_eq AddEdge_eq
        Populate_eq lookup_update_node)
qed

lemma expand_pdf_ok:
  assumes s: "loop_ok D (w, ex)" and pl: "plan \<in> D"
  shows "\<exists>s'. expand_pdf plan it p (w, ex) = Inr s' \<and> loop_ok D s'"
proof -
  let ?b = "next_node_id (graph w)"
  from s pl have ok: "graph_ok w" and pd: "plan \<in> dom (lookup w)"
    by (auto simp: loop_ok_def)
  from ok have fresh: "lookup w ?b = None" "lookup w (?b + 1) = None" "lookup w (?b + 2) = None"
    by (simp_all add: graph_ok_fresh)
  from pd have "lookup w plan \<noteq> None \<or> plan = ?b \<or> plan = ?b + 1 \<or> plan = ?b + 2" by auto
  from pdf_chain_grows [OF fresh this subset_refl, of it p]
  have g: "grows (dom (lookup w)) w (pdf_chain plan it p w)
           [(?b, (LoadPDF, it, p, - 1), 0), (?b + 1, (Chunk, it, p, - 1), 0),
            (?b + 2, (Embed, it, p, - 1), 0)]
           {(plan, ?b), (?b, ?b + 1), (?b + 1, ?b + 2)}" .
  from g ok have ok1: "graph_ok (pdf_chain plan it p w)"
    by (rule grows_graph_ok) simp
  from grows_dom [OF g]
  have d: "dom (lookup (pdf_chain plan it p w)) = dom (lookup w) \<union> {?b, ?b + 1, ?b + 2}"
    by auto
  from s have "D \<subseteq> dom (lookup w)" "set ex \<subseteq> dom (lookup w)"
    by (simp_all add: loop_ok_def)
  then have "insert (?b + 2) D \<subseteq> dom (lookup (pdf_chain plan it p w))"
    "set ex \<subseteq> dom (lookup (pdf_chain plan it p w))" unfolding d by blast+
  with ok1 have "loop_ok (insert (?b + 2) D) (pdf_chain plan it p w, ex)"
    by (simp add: loop_ok_def)
  from subquery_loop_ok [OF this, of "?b + 2" it p
      "map int [0..<nat (subqueries_per_iter (params w))]"]
  obtain s' where "foldE (expand_subquery it p (?b + 2))
       (map int [0..<nat (subqueries_per_iter (params w))]) (pdf_chain plan it p w, ex) = Inr s'"
    "loop_ok (insert (?b + 2) D) s'" by auto
  note r = this
  from r(2) have "loop_ok D s'" by (simp add: loop_ok_def)
  with r(1) show ?thesis unfolding expand_pdf_unfold [OF ok pd, of it p ex] by blast
qed

lemma pdf_loop_ok:
  assumes "loop_ok D (w, ex)" "plan \<in> D"
  shows "\<exists>s'. foldE (expand_pdf plan it) ps (w, ex) = Inr s' \<and> loop_ok D s'"
proof (rule foldE_ok [where I = "loop_ok D", OF assms(1)])
  fix p s assume s: "loop_ok D s"
  obtain v xs where v: "s = (v, xs)" by (cases s)
  from expand_pdf_ok [of D v xs plan it p] s v assms(2)
  show "\<exists>s'. expand_pdf plan it p s = Inr s' \<and> loop_ok D s'" by simp
qed

lemma AddEdge_ok:
  assumes "f \<in> dom (lookup w)" "t \<in> dom (lookup w)"
  shows "\<exists>w'. AddEdge f t w = Inr w' \<and> dom (lookup w') = dom (lookup w)"
  using assms by (auto simp: AddEdge_eq lookup_update_node split: if_splits)

lemma AddEdge_fold_ok:
  "set xs \<subseteq> dom (lookup w) \<Longrightarrow> a \<in> dom (lookup w) \<Longrightarrow>
   \<exists>w'. foldE (\<lambda>x. AddEdge x a) xs w = Inr w' \<and> dom (lookup w') = dom (lookup w)"
proof (induction xs arbitrary: w)
  case Nil
  then show ?case by simp
next
  case (Cons x xs)
  from Cons.prems have "x \<in> dom (lookup w)" by simp
  from AddEdge_ok [OF this Cons.prems(2)] obtain w1 where
    w1: "AddEdge x a w = Inr w1" "dom (lookup w1) = dom (lookup w)" by blast
  with Cons.prems have "set xs \<subseteq> dom (lookup w1)" "a \<in> dom (lookup w1)" by simp_all
  from Cons.IH [OF this] w1 show ?case by auto
qed

lemma DepsSatisfied_loop_ok:
  "set ds \<subseteq> dom (lookup w) \<Longrightarrow> \<exists>r. DepsSatisfied_loop w ds = Inr r"
  by (induction ds) (auto simp: node_def)

lemma Initialize_ok:
  assumes "nid \<in> dom (lookup w)" "\<forall>d. (d, nid) \<in> dep_edges w \<longrightarrow> d \<in> dom (lookup w)"
  shows "\<exists>w'. InitializeStateFromDeps nid w = Inr w'"
proof -
  from assms(1) obtain n where n: "lookup w nid = Some n" by auto
  then have "(nid, n) \<in> set (nodes (graph w))"
    unfolding lookup_def by (rule map_of_SomeD)
  then have "\<forall>d \<in> set (deps n). (d, nid) \<in> dep_edges w"
    by (auto simp: dep_edges_def)
  with assms(2) have "set (deps n) \<subseteq> dom (lookup w)" by blast
  from DepsSatisfied_loop_ok [OF this] obtain r where "DepsSatisfied w n = Inr r"
    by (auto simp: DepsSatisfied_def)
  with n show ?thesis
    by (auto simp: InitializeStateFromDeps_def node_def)
qed

lemma dep_edges_target: "(d, k) \<in> dep_edges w \<Longrightarrow> k \<in> dom (lookup w)"
  using lookup_Some_iff [of w k] by (auto simp: dep_edges_def)

lemma Expand_ok:
  assumes ok: "graph_ok w" and pl: "lookup w plan = Some pl"
    and it: "iter pl < max_iters (params w)"
    and guard: "count_kind w Aggregate (iter pl) = 0"
  shows "\<exists>w'. ExpandIterationFromPlan plan w = Inr w'"
proof -
  from ok pl have "loop_ok {plan} (w, [])" by (auto simp: loop_ok_def)
  from pdf_loop_ok [OF this, of plan "iter pl" "map int [0..<nat (pdfs (params w))]"]
  obtain w1 ex where
    loop: "foldE (expand_pdf plan (iter pl)) (map int [0..<nat (pdfs (params w))]) (w, [])
             = Inr (w1, ex)"
    and l1: "loop_ok {plan} (w1, ex)" by auto
  let ?a = "next_node_id (graph w1)"
  let ?w7 = "aggregate_decide (iter pl) w1"
  from l1 have ok1: "graph_ok w1" and pd: "plan \<in> dom (lookup w1)"
    and exd: "set ex \<subseteq> dom (lookup w1)" by (simp_all add: loop_ok_def)
  from ok1 have pos1: "0 < ?a" by (simp add: graph_ok_def)
  from ok1 have fresh: "lookup w1 ?a = None" "lookup w1 (?a + 1) = None"
    by (simp_all add: graph_ok_fresh)
  from guard have g: "\<not> (\<exists>(k, n) \<in> set (nodes (graph w)). ntype n = Aggregate \<and> iter n = iter pl)"
    unfolding guard_count by simp
  have u: "ExpandIterationFromPlan plan w
      = bindE (if ex \<noteq> [] then foldE (\<lambda>x. AddEdge x ?a) ex ?w7 else AddEdge plan ?a ?w7)
          (\<lambda>w8. bindE (AddEdge ?a (?a + 1) w8)
          (\<lambda>w9. bindE (InitializeStateFromDeps ?a w9)
          (\<lambda>w10. InitializeStateFromDeps (?a + 1) w10)))"
    using pl it g loop fresh pos1
    by (simp add: ExpandIterationFromPlan_def aggregate_decide_def NewNodeId_eq Let_def
        AddNode_eq Populate_eq node_def)
  note g2 = aggregate_decide_grows [OF fresh subset_refl, of "iter pl"]
  from grows_dom [OF g2] have d7: "dom (lookup ?w7) = dom (lookup w1) \<union> {?a, ?a + 1}" by auto
  from fresh have notK: "?a \<notin> dom (lookup w1)" "?a + 1 \<notin> dom (lookup w1)" by auto
  obtain w8 where
    e8: "(if ex \<noteq> [] then foldE (\<lambda>x. AddEdge x ?a) ex ?w7 else AddEdge plan ?a ?w7) = Inr w8"
    and d8: "dom (lookup w8) = dom (lookup ?w7)"
    and g3: "grows (dom (lookup w1)) ?w7 w8 []
               (if ex \<noteq> [] then {(x, ?a) | x. x \<in> set ex} else {(plan, ?a)})"
  proof (cases "ex = []")
    case True
    from pd d7 have "plan \<in> dom (lookup ?w7)" "?a \<in> dom (lookup ?w7)" by auto
    from AddEdge_ok [OF this] obtain w8 where
      r: "AddEdge plan ?a ?w7 = Inr w8" "dom (lookup w8) = dom (lookup ?w7)" by blast
    from AddEdge_grows [OF r(1) notK(1)] r True that [of w8] show ?thesis by simp
  next
    case False
    from exd d7 have "set ex \<subseteq> dom (lookup ?w7)" "?a \<in> dom (lookup ?w7)" by auto
    from AddEdge_fold_ok [OF this] obtain w8 where
      r: "foldE (\<lambda>x. AddEdge x ?a) ex ?w7 = Inr w8" "dom (lookup w8) = dom (lookup ?w7)"
      by blast
    from AddEdge_fold_grows [OF r(1) notK(1)] r False that [of w8] show ?thesis by simp
  qed
  from d8 d7 have "?a \<in> dom (lookup w8)" "?a + 1 \<in> dom (lookup w8)" by auto
  from AddEdge_ok [OF this] obtain w9 where
    e9: "AddEdge ?a (?a + 1) w8 = Inr w9" and d9: "dom (lookup w9) = dom (lookup w8)" by blast
  note g4 = AddEdge_grows [OF e9 notK(2)]
  note g9 = grows_trans [OF grows_trans [OF g2 g3] g4]
  then have de9: "dep_edges w9 = dep_edges w1
      \<union> ((if ex \<noteq> [] then {(x, ?a) | x. x \<in> set ex} else {(plan, ?a)}) \<union> {(?a, ?a + 1)})"
    by (simp add: grows_def)
  have c9: "\<forall>d. (d, ?a) \<in> dep_edges w9 \<longrightarrow> d \<in> dom (lookup w9)"
  proof (intro allI impI)
    fix d assume "(d, ?a) \<in> dep_edges w9"
    with de9 notK(1) dep_edges_target [of d ?a w1]
    have "d \<in> set ex \<or> d = plan" by (auto split: if_splits)
    with exd pd d9 d8 d7 show "d \<in> dom (lookup w9)" by auto
  qed
  from d9 d8 d7 have a9: "?a \<in> dom (lookup w9)" by auto
  from Initialize_ok [OF a9 c9] obtain w10 where
    i10: "InitializeStateFromDeps ?a w9 = Inr w10" by blast
  note g5 = Initialize_grows [OF i10 notK(1)]
  from g5 have de10: "dep_edges w10 = dep_edges w9" by (simp add: grows_def)
  from grows_dom [OF g5] have d10: "dom (lookup w10) = dom (lookup w9)" by simp
  have c10: "\<forall>d. (d, ?a + 1) \<in> dep_edges w10 \<longrightarrow> d \<in> dom (lookup w10)"
  proof (intro allI impI)
    fix d assume "(d, ?a + 1) \<in> dep_edges w10"
    with de10 de9 notK(2) dep_edges_target [of d "?a + 1" w1]
    have "d = ?a" by (auto split: if_splits)
    with a9 d10 show "d \<in> dom (lookup w10)" by simp
  qed
  from d10 d9 d8 d7 have "?a + 1 \<in> dom (lookup w10)" by auto
  from Initialize_ok [OF this c10] obtain w' where
    "InitializeStateFromDeps (?a + 1) w10 = Inr w'" by blast
  with u e8 e9 i10 show ?thesis by simp
qed

lemma evidence_estimate_range:
  "0 \<le> evidence_estimate sd wid it p q \<and> evidence_estimate sd wid it p q \<le> 3"
proof -
  have "uint (h mod 4) \<le> 3" for h :: "64 word"
  proof -
    have "uint (h mod 4) < 4" by (simp add: uint_mod)
    then show ?thesis by arith
  qed
  then show ?thesis
    unfolding evidence_estimate_def Let_def by simp
qed

lemma set_pdf_entries:
  "set (pdf_entries sd wid k K (load_id b K p) (int p))
     = {(load_id b K p, (LoadPDF, k, int p, - 1), 0),
         (chunk_id b K p, (Chunk, k, int p, - 1), 0),
         (embed_id b K p, (Embed, k, int p, - 1), 0)}
        \<union> (\<Union>q \<in> {..<K}.
             {(search_id b K p q, (SimilaritySearch, k, int p, int q), 0),
              (extract_id b K p q, (ExtractEvidence, k, int p, int q),
               evidence_estimate sd wid k (int p) (int q))})"
  by (simp add: pdf_entries_def subquery_entries_def chunk_id_def embed_id_def search_id_def
      extract_id_def atLeast0LessThan)

lemma set_iteration_entries:
  "set (iteration_entries sd wid k P K b) = expansion_nodes sd wid k P K b"
proof -
  have "iteration_entries sd wid k P K b
      = concat (map (\<lambda>i. pdf_entries sd wid k K (load_id b K i) (int i)) [0..<P])
        @ [(aggregate_id b P K, (Aggregate, k, - 1, - 1), 0),
           (decide_id b P K, (DecideNext, k, - 1, - 1), 0)]"
    by (simp add: iteration_entries_def load_id_def aggregate_id_def decide_id_def)
  then show ?thesis
    by (simp add: expansion_nodes_def set_pdf_entries atLeast0LessThan Un_commute)
qed

lemma set_pdf_edges:
  "pdf_edges plan K (load_id b K p)
     = {(plan, load_id b K p), (load_id b K p, chunk_id b K p),
         (chunk_id b K p, embed_id b K p)}
        \<union> (\<Union>q \<in> {..<K}.
             {(embed_id b K p, search_id b K p q),
              (search_id b K p q, extract_id b K p q)})"
  by (simp add: pdf_edges_def subquery_edges_def chunk_id_def embed_id_def search_id_def
      extract_id_def)

lemma set_pdf_extracts:
  "set (pdf_extracts K (load_id b K p)) = (\<Union>q \<in> {..<K}. {extract_id b K p q})"
  by (auto simp: pdf_extracts_def extract_id_def search_id_def)

lemma iteration_extracts_empty:
  "0 < P \<Longrightarrow> iteration_extracts P K b = [] \<longleftrightarrow> K = 0"
  by (cases P) (auto simp: iteration_extracts_def pdf_extracts_def)

lemma set_iteration_extracts:
  "set (iteration_extracts P K b) = (\<Union>p \<in> {..<P}. \<Union>q \<in> {..<K}. {extract_id b K p q})"
proof -
  have "iteration_extracts P K b = concat (map (\<lambda>i. pdf_extracts K (load_id b K i)) [0..<P])"
    by (simp add: iteration_extracts_def load_id_def)
  then show ?thesis
    by (simp add: set_pdf_extracts atLeast0LessThan)
qed

lemma iteration_edges_expansion:
  assumes "0 < P"
  shows "iteration_edges plan P K b = expansion_edges plan P K b"
proof -
  have 1: "(\<Union>i \<in> {..<P}. pdf_edges plan K (b + i * (3 + 2 * K)))
      = (\<Union>p \<in> {..<P}. pdf_edges plan K (load_id b K p))"
    by (simp add: load_id_def)
  have 2: "{(x, a) | x. x \<in> set (iteration_extracts P K b)}
      = (\<Union>p \<in> {..<P}. \<Union>q \<in> {..<K}. {(extract_id b K p q, a)})" for a
    unfolding set_iteration_extracts by auto
  have 3: "b + P * (3 + 2 * K) = aggregate_id b P K"
    "aggregate_id b P K + 1 = decide_id b P K"
    by (simp_all add: aggregate_id_def decide_id_def)
  show ?thesis
    unfolding iteration_edges_def expansion_edges_def iteration_extracts_empty [OF assms]
      1 2 3 set_pdf_edges ..
qed

lemma count_subquery_loop:
  "count_entries t k (concat (map (\<lambda>j. subquery_entries sd wid k p (c j) (int j)) [0..<K]))
     = (if t = SimilaritySearch \<or> t = ExtractEvidence then K else 0)"
  by (induction K) (auto simp: subquery_entries_def)

lemma count_pdf_entries_kind:
  "count_entries t k (pdf_entries sd wid k K l p)
     = (if t = LoadPDF \<or> t = Chunk \<or> t = Embed then 1
        else if t = SimilaritySearch \<or> t = ExtractEvidence then K else 0)"
  unfolding pdf_entries_def count_entries_append count_subquery_loop by auto

lemma count_pdf_loop:
  "count_entries t k (concat (map (\<lambda>i. pdf_entries sd wid k K (c i) (int i)) [0..<P]))
     = P * (if t = LoadPDF \<or> t = Chunk \<or> t = Embed then 1
            else if t = SimilaritySearch \<or> t = ExtractEvidence then K else 0)"
  by (induction P) (simp_all add: count_pdf_entries_kind)

lemma count_iteration_kinds:
  "count_entries LoadPDF k (iteration_entries sd wid k P K b) = P"
  "count_entries Chunk k (iteration_entries sd wid k P K b) = P"
  "count_entries Embed k (iteration_entries sd wid k P K b) = P"
  "count_entries SimilaritySearch k (iteration_entries sd wid k P K b) = P * K"
  "count_entries ExtractEvidence k (iteration_entries sd wid k P K b) = P * K"
  "count_entries Aggregate k (iteration_entries sd wid k P K b) = 1"
  "count_entries DecideNext k (iteration_entries sd wid k P K b) = 1"
  unfolding iteration_entries_def count_entries_append count_pdf_loop by simp_all

lemma length_iteration_entries:
  "length (iteration_entries sd wid k P K b) = 3 * P + 2 * (P * K) + 2"
  unfolding iteration_entries_def length_append length_pdf_loop_entries
  by (simp add: algebra_simps)

text \<open>
  C4. Let \<open>w\<close> be a workflow with \<open>P \<ge> 1\<close> pdfs and \<open>K \<ge> 0\<close> subqueries per iteration
  whose node ids lie below its positive id counter \<open>b\<close>, and let the node \<open>plan\<close> have an
  iteration \<open>k\<close> below \<open>max_iters\<close> for which the workflow holds no Aggregate node. Then
  \<open>ExpandIterationFromPlan\<close> returns, and the workflow it returns has the entries of \<open>w\<close>
  followed by new ones: \<open>P\<close> LoadPDF, \<open>P\<close> Chunk, \<open>P\<close> Embed, \<open>P * K\<close> SimilaritySearch,
  \<open>P * K\<close> ExtractEvidence, one Aggregate and one DecideNext entry of iteration \<open>k\<close>, and no
  others. They are the entries of \<open>expansion_nodes\<close>: one LoadPDF, Chunk and Embed node for
  each pdf \<open>p\<close>, one SimilaritySearch and one ExtractEvidence node for each pdf \<open>p\<close> and
  subquery \<open>q\<close>, the latter with the evidence estimate computed from seed, workflow id,
  \<open>k\<close>, \<open>p\<close> and \<open>q\<close>, which is 0, 1, 2 or 3. The dependency edges, and likewise the child
  edges, are those of \<open>w\<close> and the edges of \<open>expansion_edges\<close>: from the Plan node to each
  LoadPDF(p), on to Chunk(p) and to Embed(p), from Embed(p) to each SimilaritySearch(p, q)
  and on to ExtractEvidence(p, q), from every ExtractEvidence node to the Aggregate node
  (from the Plan node when \<open>K = 0\<close>), and from the Aggregate node to the DecideNext node.
  The nodes of \<open>w\<close> are kept, up to their lists of children.
\<close>

theorem ExpandIterationFromPlan_adds_iteration:
  assumes ok: "graph_ok w" and pl: "lookup w plan = Some pl"
    and it: "iter pl < max_iters (params w)"
    and guard: "count_kind w Aggregate (iter pl) = 0"
    and P: "pdfs (params w) = int P" "1 \<le> P"
    and K: "subqueries_per_iter (params w) = int K"
  shows "\<exists>w' new. ExpandIterationFromPlan plan w = Inr w'
      \<and> entries w' = entries w @ new
      \<and> set new = expansion_nodes (seed (params w)) (wf_id w) (iter pl) P K
                    (next_node_id (graph w))
      \<and> length new = 3 * P + 2 * (P * K) + 2
      \<and> count_entries LoadPDF (iter pl) new = P
      \<and> count_entries Chunk (iter pl) new = P
      \<and> count_entries Embed (iter pl) new = P
      \<and> count_entries SimilaritySearch (iter pl) new = P * K
      \<and> count_entries ExtractEvidence (iter pl) new = P * K
      \<and> count_entries Aggregate (iter pl) new = 1
      \<and> count_entries DecideNext (iter pl) new = 1
      \<and> dep_edges w' = dep_edges w \<union> expansion_edges plan P K (next_node_id (graph w))
      \<and> child_edges w' = child_edges w \<union> expansion_edges plan P K (next_node_id (graph w))
      \<and> (\<forall>p q. evidence_estimate (seed (params w)) (wf_id w) (iter pl) p q \<in> {0, 1, 2, 3})
      \<and> (\<forall>i n. lookup w i = Some n \<longrightarrow>
            (\<exists>n'. lookup w' i = Some n' \<and> n'\<lparr>children := children n\<rparr> = n))"
proof -
  let ?b = "next_node_id (graph w)"
  let ?new = "iteration_entries (seed (params w)) (wf_id w) (iter pl) P K ?b"
  from Expand_ok [OF ok pl it guard] obtain w' where
    run: "ExpandIterationFromPlan plan w = Inr w'" by blast
  from guard have g: "\<not> (\<exists>(k, n) \<in> set (nodes (graph w)). ntype n = Aggregate \<and> iter n = iter pl)"
    unfolding guard_count by simp
  from ok have pos: "0 < ?b" by (simp add: graph_ok_def)
  from Expand_grows [OF run pl it g pos subset_refl] P K
  have gr: "grows (dom (lookup w)) w w' ?new (iteration_edges plan P K ?b)" by simp
  from P(2) have e: "iteration_edges plan P K ?b = expansion_edges plan P K ?b"
    by (intro iteration_edges_expansion) simp
  have ev: "evidence_estimate (seed (params w)) (wf_id w) (iter pl) p q \<in> {0, 1, 2, 3}" for p q
    using evidence_estimate_range [of "seed (params w)" "wf_id w" "iter pl" p q] by auto
  have keep: "\<exists>n'. lookup w' i = Some n' \<and> n'\<lparr>children := children n\<rparr> = n"
    if "lookup w i = Some n" for i n
    using gr that unfolding grows_def preserves_def by blast
  from gr have "entries w' = entries w @ ?new"
    "dep_edges w' = dep_edges w \<union> expansion_edges plan P K ?b"
    "child_edges w' = child_edges w \<union> expansion_edges plan P K ?b"
    by (simp_all add: grows_def e)
  with run ev keep show ?thesis
    by (intro exI [of _ w'] exI [of _ ?new])
      (simp add: set_iteration_entries length_iteration_entries count_iteration_kinds)
qed

lemma plan_example_ok:
  "graph_ok plan_example" "lookup plan_example 2 = Some plan_node_example"
  "iter plan_node_example < max_iters (params plan_example)"
  "count_kind plan_example Aggregate 0 = 0"
  "pdfs (params plan_example) = int 1" "subqueries_per_iter (params plan_example) = int 1"
  "seed (params plan_example) = 1" "wf_id plan_example = 7"
  "max_iters (params plan_example) = 2"
  "entries plan_example = [(2, (Plan, 0, - 1, - 1), 0)]"
  by (simp_all add: graph_ok_def lookup_def count_kind_def entries_def node_kind_def
      plan_example_def plan_node_example_def Node_init_def)

lemma plan_expanded_entries:
  "entries plan_expanded
     = [(2, (Plan, 0, - 1, - 1), 0), (3, (LoadPDF, 0, 0, - 1), 0), (4, (Chunk, 0, 0, - 1), 0),
        (5, (Embed, 0, 0, - 1), 0), (6, (SimilaritySearch, 0, 0, 0), 0),
        (7, (ExtractEvidence, 0, 0, 0), evidence_estimate 1 7 0 0 0),
        (8, (Aggregate, 0, - 1, - 1), 0), (9, (DecideNext, 0, - 1, - 1), 0)]"
  by (simp add: entries_def node_kind_def plan_expanded_def plan_node_example_def Node_init_def)

theorem ExpandIterationFromPlan_adds_iteration_witness:
  "graph_ok plan_example \<and> lookup plan_example 2 = Some plan_node_example
   \<and> iter plan_node_example < max_iters (params plan_example)
   \<and> count_kind plan_example Aggregate 0 = 0
   \<and> ExpandIterationFromPlan 2 plan_example = Inr plan_expanded
   \<and> entries plan_expanded
       = entries plan_example
         @ [(3, (LoadPDF, 0, 0, - 1), 0), (4, (Chunk, 0, 0, - 1), 0),
            (5, (Embed, 0, 0, - 1), 0), (6, (SimilaritySearch, 0, 0, 0), 0),
            (7, (ExtractEvidence, 0, 0, 0), evidence_estimate 1 7 0 0 0),
            (8, (Aggregate, 0, - 1, - 1), 0), (9, (DecideNext, 0, - 1, - 1), 0)]
   \<and> dep_edges plan_expanded = dep_edges plan_example \<union> expansion_edges 2 1 1 3
   \<and> evidence_estimate 1 7 0 0 0 \<in> {0, 1, 2, 3}"
  using ExpandIterationFromPlan_adds_iteration [where w = plan_example and plan = 2
      and pl = plan_node_example and P = 1 and K = 1]
  by (simp add: plan_example_ok plan_example_expand plan_example_facts plan_expanded_entries)

end
